theory Spec2Isabelle
  imports Main "HOL-Library.Sublist"
begin

section \<open>String utilities\<close>

text \<open>
  \<^verbatim>\<open>StringType\<close> is \<^verbatim>\<open>std::string\<close>: a sequence of bytes, here \<^typ>\<open>string\<close>.
  Positions and sizes (\<^verbatim>\<open>size_type\<close>) are natural numbers; the value \<^verbatim>\<open>npos\<close> that the
  search functions return for "not found" is \<^const>\<open>None\<close>.
\<close>

text \<open>\<^verbatim>\<open>isspace\<close> of the C locale: space, and the control characters 9 to 13.\<close>

definition isspace :: "char \<Rightarrow> bool" where
  "isspace ch \<longleftrightarrow>
     ch = CHR '' '' \<or> ch = CHR 0x09 \<or> ch = CHR 0x0A \<or> ch = CHR 0x0B \<or> ch = CHR 0x0C \<or> ch = CHR 0x0D"

text \<open>
  \<^verbatim>\<open>trim\<close>: \<^verbatim>\<open>it\<close> skips the leading white space; \<^verbatim>\<open>rit\<close> walks back from the end,
  over white space, and never past \<^verbatim>\<open>it\<close>. The result is the range between the two.
\<close>

definition trim :: "string \<Rightarrow> string" where
  "trim s = (let it = dropWhile isspace s in rev (dropWhile isspace (rev it)))"

definition escape_char :: "char \<Rightarrow> string" where
  "escape_char ch =
     (if ch = CHR ''&'' then ''&amp;''
      else if ch = CHR ''<'' then ''&lt;''
      else if ch = CHR ''>'' then ''&gt;''
      else if ch = CHR 0x22 then ''&quot;''
      else if ch = CHR 0x27 then ''&apos;''
      else [ch])"

text \<open>\<^verbatim>\<open>escape\<close>: the loop appends the replacement of each character to \<^verbatim>\<open>ret\<close>.\<close>

primrec escape :: "string \<Rightarrow> string" where
  "escape [] = []"
| "escape (ch # s) = escape_char ch @ escape s"

text \<open>
  \<^verbatim>\<open>s.substr(pos, n)\<close> and the constructor \<^verbatim>\<open>StringType{s, pos, n}\<close>. Every call of the source
  has \<^verbatim>\<open>pos \<le> s.size()\<close> (the position comes from a successful search in \<^verbatim>\<open>s\<close>, or is 1 in
  a string of at least five characters), so the exception for a position past the end is
  not modelled.
\<close>

definition substr :: "string \<Rightarrow> nat \<Rightarrow> nat \<Rightarrow> string" where
  "substr s pos n = take n (drop pos s)"

text \<open>
  \<^verbatim>\<open>s.find(needle, pos)\<close>: the least position from \<^verbatim>\<open>pos\<close> on where \<^verbatim>\<open>needle\<close> starts.
  \<open>find_in needle rest i\<close> scans \<open>rest\<close>, the text from position \<open>i\<close> on.
\<close>

fun find_in :: "string \<Rightarrow> string \<Rightarrow> nat \<Rightarrow> nat option" where
  "find_in needle [] i = (if needle = [] then Some i else None)"
| "find_in needle (c # cs) i =
     (if prefix needle (c # cs) then Some i else find_in needle cs (Suc i))"

definition str_find :: "string \<Rightarrow> string \<Rightarrow> nat \<Rightarrow> nat option" where
  "str_find s needle pos = (if length s < pos then None else find_in needle (drop pos s) pos)"

text \<open>\<^verbatim>\<open>s.find(ch)\<close>, from position 0.\<close>

fun find_char_in :: "char \<Rightarrow> string \<Rightarrow> nat \<Rightarrow> nat option" where
  "find_char_in ch [] i = None"
| "find_char_in ch (c # cs) i = (if c = ch then Some i else find_char_in ch cs (Suc i))"

definition find_char :: "string \<Rightarrow> char \<Rightarrow> nat option" where
  "find_char s ch = find_char_in ch s 0"

text \<open>\<^verbatim>\<open>s.find_first_not_of(ch, pos)\<close>.\<close>

fun find_not_in :: "char \<Rightarrow> string \<Rightarrow> nat \<Rightarrow> nat option" where
  "find_not_in ch [] i = None"
| "find_not_in ch (c # cs) i = (if c \<noteq> ch then Some i else find_not_in ch cs (Suc i))"

definition find_first_not_of :: "string \<Rightarrow> char \<Rightarrow> nat \<Rightarrow> nat option" where
  "find_first_not_of s ch pos = find_not_in ch (drop pos s) pos"

text \<open>\<^verbatim>\<open>ss << n\<close> for an unsigned number: its decimal digits.\<close>

fun show_nat :: "nat \<Rightarrow> string" where
  "show_nat n =
     (if n < 10 then [''0123456789'' ! n] else show_nat (n div 10) @ [''0123456789'' ! (n mod 10)])"

declare show_nat.simps [simp del]

section \<open>Faults and results\<close>

text \<open>
  The ways in which the C++ can leave a function other than by returning: a failed
  \<^verbatim>\<open>assert\<close>, the \<^verbatim>\<open>std::out_of_range\<close> that \<^verbatim>\<open>at\<close> throws, and two cases of undefined
  behaviour, reading through a null pointer and \<^verbatim>\<open>front()\<close> of an empty vector. The parser's loop and the
  renderer's recursion through partials and lambdas are run with fuel: \<open>OutOfFuel\<close> says
  that the fuel given was not enough, and nothing about the program.
\<close>

datatype fault = AssertionFailed | OutOfRange | NullPointer | EmptyVector

datatype 'a outcome = OutOfFuel | Fault fault | Done 'a

section \<open>Delimiters\<close>

record DelimiterSet =
  delim_begin :: string
  delim_end :: string

definition defaultBegin :: string where
  "defaultBegin = ''{{''"

definition defaultEnd :: string where
  "defaultEnd = ''}}''"

definition isDefault :: "DelimiterSet \<Rightarrow> bool" where
  "isDefault d \<longleftrightarrow> delim_begin d = defaultBegin \<and> delim_end d = defaultEnd"

definition reset :: DelimiterSet where
  "reset = \<lparr>delim_begin = defaultBegin, delim_end = defaultEnd\<rparr>"

subsection \<open>The set-delimiter tag\<close>

definition isSetDelimiterValid :: "string \<Rightarrow> bool" where
  "isSetDelimiterValid delimiter \<longleftrightarrow> list_all (\<lambda>ch. \<not> (ch = CHR ''='' \<or> isspace ch)) delimiter"

text \<open>
  \<^verbatim>\<open>parseSetDelimiterTag\<close> returns whether the tag is legal, and the delimiter set, which it
  changes only when it returns true. The \<^verbatim>\<open>assert\<close> is a branch of its own.
\<close>

definition parseSetDelimiterTag :: "string \<Rightarrow> DelimiterSet \<Rightarrow> fault + bool \<times> DelimiterSet" where
  "parseSetDelimiterTag contents delimiterSet =
     (if length contents < 5 then Inr (False, delimiterSet)
      else if last contents \<noteq> CHR ''='' then Inr (False, delimiterSet)
      else
        let contentsSubstr = trim (substr contents 1 (length contents - 2)) in
        case find_char contentsSubstr (CHR '' '') of
          None \<Rightarrow> Inr (False, delimiterSet)
        | Some spacepos \<Rightarrow>
            (case find_first_not_of contentsSubstr (CHR '' '') (spacepos + 1) of
               None \<Rightarrow> Inl AssertionFailed
             | Some nonspace \<Rightarrow>
                 let begin' = substr contentsSubstr 0 spacepos;
                     end' = substr contentsSubstr nonspace (length contentsSubstr - nonspace)
                 in if \<not> isSetDelimiterValid begin' \<or> \<not> isSetDelimiterValid end'
                    then Inr (False, delimiterSet)
                    else Inr (True, \<lparr>delim_begin = begin', delim_end = end'\<rparr>)))"

section \<open>Tags and components\<close>

datatype TagType =
  Invalid | Variable | UnescapedVariable | SectionBegin | SectionEnd | SectionBeginInverted
  | Comment | Partial | SetDelimiter

text \<open>The two shared pointers of a tag are optional values: a null pointer is \<^const>\<open>None\<close>.\<close>

record Tag =
  tag_name :: string
  tag_type :: TagType
  sectionText :: "string option"
  tag_delimiterSet :: "DelimiterSet option"

definition isSectionBegin :: "Tag \<Rightarrow> bool" where
  "isSectionBegin t \<longleftrightarrow> tag_type t = SectionBegin \<or> tag_type t = SectionBeginInverted"

definition isSectionEnd :: "Tag \<Rightarrow> bool" where
  "isSectionEnd t \<longleftrightarrow> tag_type t = SectionEnd"

datatype Component =
  Component (comp_text: string) (comp_tag: Tag) (children: "Component list") (position: nat)

definition isText :: "Component \<Rightarrow> bool" where
  "isText cmp \<longleftrightarrow> tag_type (comp_tag cmp) = Invalid"

text \<open>\<^verbatim>\<open>StringType::npos\<close>, the position of a default-constructed component (64-bit \<^verbatim>\<open>size_t\<close>).\<close>

definition npos :: nat where
  "npos = 18446744073709551615"

definition new_Tag :: Tag where
  "new_Tag = \<lparr>tag_name = [], tag_type = Invalid, sectionText = None, tag_delimiterSet = None\<rparr>"

text \<open>The two constructors \<^verbatim>\<open>Component()\<close> and \<^verbatim>\<open>Component(t, p)\<close>.\<close>

definition new_Component :: Component where
  "new_Component = Component [] new_Tag [] npos"

definition text_Component :: "string \<Rightarrow> nat \<Rightarrow> Component" where
  "text_Component t p = Component t new_Tag [] p"

subsection \<open>Pointers into the tree\<close>

text \<open>
  The parser keeps \<^verbatim>\<open>Component*\<close> pointers into the tree under \<^verbatim>\<open>rootComponent_\<close>. A pointer
  is modelled by the path from the root to the component it points to: the list of the
  child indices to follow. \<open>get_at\<close> reads through a pointer and \<open>update_at\<close> writes through
  it.
\<close>

fun get_at :: "Component \<Rightarrow> nat list \<Rightarrow> Component" where
  "get_at c [] = c"
| "get_at c (i # p) = get_at (children c ! i) p"

fun update_at :: "(Component \<Rightarrow> Component) \<Rightarrow> nat list \<Rightarrow> Component \<Rightarrow> Component" where
  "update_at f [] c = f c"
| "update_at f (i # p) c =
     Component (comp_text c) (comp_tag c)
       ((children c)[i := update_at f p (children c ! i)]) (position c)"

definition push_back_child :: "Component \<Rightarrow> Component \<Rightarrow> Component" where
  "push_back_child cmp c =
     Component (comp_text c) (comp_tag c) (children c @ [cmp]) (position c)"

definition pop_back_child :: "Component \<Rightarrow> Component" where
  "pop_back_child c = Component (comp_text c) (comp_tag c) (butlast (children c)) (position c)"

definition set_sectionText :: "string \<Rightarrow> Component \<Rightarrow> Component" where
  "set_sectionText t c =
     Component (comp_text c) ((comp_tag c)\<lparr>sectionText := Some t\<rparr>) (children c) (position c)"

section \<open>The walker\<close>

datatype WalkControl = Continue | Stop | Skip

text \<open>
  A \<^verbatim>\<open>WalkCallback\<close> takes the component by reference and the depth, and has side effects
  through what it captures. Here it takes the state \<open>'s\<close> it may change, and returns the
  control, the component as it left it, and the new state.
\<close>

type_synonym 's WalkCallback = "Component \<Rightarrow> nat \<Rightarrow> 's \<Rightarrow> (WalkControl \<times> Component \<times> 's) outcome"

text \<open>
  The loop of \<^verbatim>\<open>walkComponent\<close> over the children. \<^verbatim>\<open>for (auto childComp : comp.children)\<close>
  copies each child: what the callback does to \<^verbatim>\<open>childComp\<close> is seen by the walk below that
  child, and is lost with the copy. So \<open>w\<close>, the walk of one child, returns no component.
\<close>

primrec walkComponent_loop ::
  "(Component \<Rightarrow> 's \<Rightarrow> (WalkControl \<times> 's) outcome) \<Rightarrow> Component list \<Rightarrow> WalkControl \<Rightarrow> 's
     \<Rightarrow> (WalkControl \<times> 's) outcome" where
  "walkComponent_loop w [] control s = Done (control, s)"
| "walkComponent_loop w (childComp # rest) control s =
     (case w childComp s of
        OutOfFuel \<Rightarrow> OutOfFuel
      | Fault f \<Rightarrow> Fault f
      | Done (control', s') \<Rightarrow>
          if control' = Stop then Done (control', s')
          else if control' = Skip then Done (Continue, s')
          else walkComponent_loop w rest control' s')"

text \<open>The recursion of \<^verbatim>\<open>walkComponent\<close> is on the depth of the tree; it is run with fuel.\<close>

primrec walkComponent ::
  "nat \<Rightarrow> 's WalkCallback \<Rightarrow> Component \<Rightarrow> nat \<Rightarrow> 's \<Rightarrow> (WalkControl \<times> 's) outcome" where
  "walkComponent 0 callback cmp depth s = OutOfFuel"
| "walkComponent (Suc fuel) callback cmp depth s =
     (case callback cmp depth s of
        OutOfFuel \<Rightarrow> OutOfFuel
      | Fault f \<Rightarrow> Fault f
      | Done (control, cmp', s') \<Rightarrow>
          if control = Stop then Done (control, s')
          else if control = Skip then Done (Continue, s')
          else walkComponent_loop (\<lambda>childComp. walkComponent fuel callback childComp (depth + 1))
                 (children cmp') control s')"

primrec walkChildren_loop ::
  "(Component \<Rightarrow> 's \<Rightarrow> (WalkControl \<times> 's) outcome) \<Rightarrow> Component list \<Rightarrow> 's \<Rightarrow> 's outcome" where
  "walkChildren_loop w [] s = Done s"
| "walkChildren_loop w (childComp # rest) s =
     (case w childComp s of
        OutOfFuel \<Rightarrow> OutOfFuel
      | Fault f \<Rightarrow> Fault f
      | Done (control, s') \<Rightarrow>
          if control \<noteq> Continue then Done s' else walkChildren_loop w rest s')"

definition walkChildren :: "nat \<Rightarrow> 's WalkCallback \<Rightarrow> Component \<Rightarrow> 's \<Rightarrow> 's outcome" where
  "walkChildren fuel callback cmp s =
     walkChildren_loop (\<lambda>childComp. walkComponent fuel callback childComp 0) (children cmp) s"

section \<open>The parser\<close>

record Template =
  errorMessage :: string
  rootComponent :: Component

text \<open>
  The state of \<^verbatim>\<open>parse\<close>: the delimiter set of the context it was given, its local
  variables, and the two members of the template under construction. The vectors
  \<^verbatim>\<open>sections\<close> and \<^verbatim>\<open>sectionStarts\<close> are lists whose last element is \<^verbatim>\<open>back()\<close>.
\<close>

record ParseState =
  ctx_delimiterSet :: DelimiterSet
  currentDelimiterIsBrace :: bool
  sections :: "nat list list"
  sectionStarts :: "nat list"
  inputPosition :: nat
  ps_errorMessage :: string
  ps_rootComponent :: Component

text \<open>
  The delimiters of a context are never empty: the default ones are not, and
  \<^verbatim>\<open>parseSetDelimiterTag\<close> accepts no empty one.
\<close>

definition delimiters_nonempty :: "ParseState \<Rightarrow> bool" where
  "delimiters_nonempty st \<longleftrightarrow>
     delim_begin (ctx_delimiterSet st) \<noteq> [] \<and> delim_end (ctx_delimiterSet st) \<noteq> []"

text \<open>\<^verbatim>\<open>sections.back()->children.push_back(comp)\<close>\<close>

definition add_child :: "Component \<Rightarrow> ParseState \<Rightarrow> ParseState" where
  "add_child cmp st =
     st\<lparr>ps_rootComponent := update_at (push_back_child cmp) (last (sections st)) (ps_rootComponent st)\<rparr>"

text \<open>
  \<^verbatim>\<open>inputSize - 2\<close> is computed in \<^verbatim>\<open>size_t\<close>, and wraps around below zero.
\<close>

definition size_sub :: "nat \<Rightarrow> nat \<Rightarrow> nat" where
  "size_sub a b = (a + 18446744073709551616 - b) mod 18446744073709551616"

text \<open>
  Line 506. The conjunction is evaluated from the left, so the two calls of \<^verbatim>\<open>at\<close>, which
  throw when the index is not in the string, are reached only when the first two
  conjuncts hold.
\<close>

definition tagIsUnescapedVar :: "string \<Rightarrow> ParseState \<Rightarrow> nat \<Rightarrow> nat \<Rightarrow> fault + bool" where
  "tagIsUnescapedVar input st tagLocationStart tagContentsLocation =
     (if \<not> currentDelimiterIsBrace st then Inr False
      else if tagLocationStart = size_sub (length input) 2 then Inr False
      else if length input \<le> tagContentsLocation \<or> delim_begin (ctx_delimiterSet st) = []
        then Inl OutOfRange
      else Inr (input ! tagContentsLocation = hd (delim_begin (ctx_delimiterSet st))))"

definition tag_type_of_sigil :: "char \<Rightarrow> TagType" where
  "tag_type_of_sigil ch =
     (if ch = CHR ''#'' then SectionBegin
      else if ch = CHR ''^'' then SectionBeginInverted
      else if ch = CHR ''/'' then SectionEnd
      else if ch = CHR ''>'' then Partial
      else if ch = CHR ''&'' then UnescapedVariable
      else if ch = CHR ''!'' then Comment
      else Variable)"

definition parseTagContents :: "bool \<Rightarrow> string \<Rightarrow> Tag \<Rightarrow> Tag" where
  "parseTagContents isUnescapedVar contents t =
     (if isUnescapedVar then t\<lparr>tag_type := UnescapedVariable, tag_name := contents\<rparr>
      else if contents = [] then t\<lparr>tag_type := Variable, tag_name := []\<rparr>
      else
        let ty = tag_type_of_sigil (hd contents) in
        if ty = Variable then t\<lparr>tag_type := ty, tag_name := contents\<rparr>
        else t\<lparr>tag_type := ty, tag_name := trim (tl contents)\<rparr>)"

text \<open>What one run of the loop body of \<^verbatim>\<open>parse\<close> ends with.\<close>

datatype StepResult =
  Thrown fault
  | Returned ParseState
  | Broke ParseState
  | Iterated ParseState

text \<open>
  Lines 543 to 557: push or pop sections, after the tag component \<open>cmp\<close> has been added and
  \<^verbatim>\<open>inputPosition\<close> moved behind the tag. The pointer to the component just added is the
  path to its parent followed by the index of the last child.
\<close>

definition push_or_pop :: "string \<Rightarrow> nat \<Rightarrow> Component \<Rightarrow> ParseState \<Rightarrow> StepResult" where
  "push_or_pop input tagLocationStart cmp st =
     (if isSectionBegin (comp_tag cmp) then
        Iterated (st\<lparr>
          sections := sections st @
            [last (sections st) @
               [length (children (get_at (ps_rootComponent st) (last (sections st)))) - 1]],
          sectionStarts := sectionStarts st @ [inputPosition st]\<rparr>)
      else if isSectionEnd (comp_tag cmp) then
        (if length (sections st) = 1 then
           Returned (st\<lparr>ps_errorMessage :=
             ''Unopened section '' @ [CHR 0x22] @ tag_name (comp_tag cmp) @ [CHR 0x22] @ '' at ''
               @ show_nat (position cmp)\<rparr>)
         else
           Iterated (st\<lparr>
             ps_rootComponent :=
               update_at
                 (set_sectionText
                    (substr input (last (sectionStarts st))
                       (tagLocationStart - last (sectionStarts st))))
                 (last (sections st)) (ps_rootComponent st),
             sections := butlast (sections st),
             sectionStarts := butlast (sectionStarts st)\<rparr>))
      else Iterated st)"

text \<open>
  Lines 520 to 541: the tag between \<open>tagContentsLocation\<close> and \<open>tagLocationEnd\<close>.
  \<open>endSize\<close> is \<^verbatim>\<open>currentTagDelimiterEndSize\<close>, taken before a set-delimiter tag changes the
  delimiters.
\<close>

definition parse_tag ::
  "string \<Rightarrow> nat \<Rightarrow> nat \<Rightarrow> nat \<Rightarrow> bool \<Rightarrow> nat \<Rightarrow> ParseState \<Rightarrow> StepResult" where
  "parse_tag input tagLocationStart tagContentsLocation tagLocationEnd isUnescapedVar endSize st =
     (let tagContents = trim (substr input tagContentsLocation (tagLocationEnd - tagContentsLocation));
          finish = (\<lambda>t st'.
            let cmp = Component [] t [] tagLocationStart;
                st'' = (add_child cmp st')\<lparr>inputPosition := tagLocationEnd + endSize\<rparr>
            in push_or_pop input tagLocationStart cmp st'')
      in
        if tagContents \<noteq> [] \<and> hd tagContents = CHR ''='' then
          (case parseSetDelimiterTag tagContents (ctx_delimiterSet st) of
             Inl f \<Rightarrow> Thrown f
           | Inr (ok, d) \<Rightarrow>
               if \<not> ok then
                 Returned (st\<lparr>ps_errorMessage :=
                   ''Invalid set delimiter tag at '' @ show_nat tagLocationStart\<rparr>)
               else
                 finish (new_Tag\<lparr>tag_type := SetDelimiter, tag_delimiterSet := Some d\<rparr>)
                   (st\<lparr>ctx_delimiterSet := d, currentDelimiterIsBrace := isDefault d\<rparr>))
        else finish (parseTagContents isUnescapedVar tagContents new_Tag) st)"

text \<open>The loop body of \<^verbatim>\<open>parse\<close>, lines 491 to 557.\<close>

definition parse_step :: "string \<Rightarrow> ParseState \<Rightarrow> StepResult" where
  "parse_step input st =
     (let inputSize = length input in
      case str_find input (delim_begin (ctx_delimiterSet st)) (inputPosition st) of
        None \<Rightarrow>
          Broke (add_child
            (text_Component (substr input (inputPosition st) (inputSize - inputPosition st))
               (inputPosition st)) st)
      | Some tagLocationStart \<Rightarrow>
          let st1 =
                (if tagLocationStart \<noteq> inputPosition st then
                   add_child
                     (text_Component
                        (substr input (inputPosition st) (tagLocationStart - inputPosition st))
                        (inputPosition st)) st
                 else st);
              tagContentsLocation = tagLocationStart + length (delim_begin (ctx_delimiterSet st))
          in
            case tagIsUnescapedVar input st tagLocationStart tagContentsLocation of
              Inl f \<Rightarrow> Thrown f
            | Inr isUnescapedVar \<Rightarrow>
                let currentTagDelimiterEnd =
                      (if isUnescapedVar then ''}}}'' else delim_end (ctx_delimiterSet st));
                    tagContentsLocation' =
                      (if isUnescapedVar then tagContentsLocation + 1 else tagContentsLocation)
                in
                  case str_find input currentTagDelimiterEnd tagContentsLocation' of
                    None \<Rightarrow>
                      Returned (st1\<lparr>ps_errorMessage :=
                        ''Unclosed tag at '' @ show_nat tagLocationStart\<rparr>)
                  | Some tagLocationEnd \<Rightarrow>
                      parse_tag input tagLocationStart tagContentsLocation' tagLocationEnd
                        isUnescapedVar (length currentTagDelimiterEnd) st1)"

text \<open>
  The loop \<^verbatim>\<open>while (inputPosition != inputSize)\<close>, with fuel for the number of runs of its
  body. The result says whether the loop was left at its end or by \<^verbatim>\<open>break\<close> (\<open>True\<close>), or
  the function by \<^verbatim>\<open>return\<close> (\<open>False\<close>).
\<close>

primrec parse_loop :: "nat \<Rightarrow> string \<Rightarrow> ParseState \<Rightarrow> (bool \<times> ParseState) outcome" where
  "parse_loop 0 input st =
     (if inputPosition st = length input then Done (True, st) else OutOfFuel)"
| "parse_loop (Suc fuel) input st =
     (if inputPosition st = length input then Done (True, st)
      else case parse_step input st of
        Thrown f \<Rightarrow> Fault f
      | Returned st' \<Rightarrow> Done (False, st')
      | Broke st' \<Rightarrow> Done (True, st')
      | Iterated st' \<Rightarrow> parse_loop fuel input st')"

text \<open>
  The callback of the walk that ends \<^verbatim>\<open>parse\<close> (lines 561 to 573). Its state is
  \<^verbatim>\<open>errorMessage_\<close>. It removes the closing tag from the component it is given.
\<close>

definition check_section :: "string WalkCallback" where
  "check_section cmp depth err =
     (if \<not> isSectionBegin (comp_tag cmp) then Done (Continue, cmp, err)
      else if children cmp = [] \<or> \<not> isSectionEnd (comp_tag (last (children cmp)))
              \<or> tag_name (comp_tag (last (children cmp))) \<noteq> tag_name (comp_tag cmp)
        then Done (Stop, cmp,
          ''Unclosed section '' @ [CHR 0x22] @ tag_name (comp_tag cmp) @ [CHR 0x22] @ '' at ''
            @ show_nat (position cmp))
      else Done (Continue, pop_back_child cmp, err))"

text \<open>
  The state in which \<^verbatim>\<open>parse\<close> enters its loop, on a new template and with a context whose
  delimiter set is \<open>delimiterSet\<close>: \<^verbatim>\<open>sections\<close> holds the pointer to the root.
\<close>

definition new_ParseState :: "DelimiterSet \<Rightarrow> ParseState" where
  "new_ParseState delimiterSet =
     \<lparr>ctx_delimiterSet = delimiterSet,
      currentDelimiterIsBrace = isDefault delimiterSet,
      sections = [[]],
      sectionStarts = [],
      inputPosition = 0,
      ps_errorMessage = [],
      ps_rootComponent = new_Component\<rparr>"

text \<open>
  \<^verbatim>\<open>parse(input, ctx)\<close> on a new template. It returns the template and the delimiter set of
  the context, which the set-delimiter tags of the input have changed. \<^verbatim>\<open>walk\<close> is
  \<^verbatim>\<open>walkChildren\<close> on \<^verbatim>\<open>rootComponent_\<close>: the callback works on copies of the components,
  and the walk changes \<^verbatim>\<open>errorMessage_\<close> only.
\<close>

definition parse :: "nat \<Rightarrow> string \<Rightarrow> DelimiterSet \<Rightarrow> (Template \<times> DelimiterSet) outcome" where
  "parse fuel input delimiterSet =
     (case parse_loop fuel input (new_ParseState delimiterSet) of
        OutOfFuel \<Rightarrow> OutOfFuel
      | Fault f \<Rightarrow> Fault f
      | Done (finished, st) \<Rightarrow>
          if \<not> finished then
            Done (\<lparr>errorMessage = ps_errorMessage st, rootComponent = ps_rootComponent st\<rparr>,
                  ctx_delimiterSet st)
          else
            case walkChildren fuel check_section (ps_rootComponent st) (ps_errorMessage st) of
              OutOfFuel \<Rightarrow> OutOfFuel
            | Fault f \<Rightarrow> Fault f
            | Done err \<Rightarrow>
                Done (\<lparr>errorMessage = err, rootComponent = ps_rootComponent st\<rparr>,
                      ctx_delimiterSet st))"

definition isValid :: "Template \<Rightarrow> bool" where
  "isValid tmpl \<longleftrightarrow> errorMessage tmpl = []"

text \<open>
  The public constructor \<^verbatim>\<open>BasicMustache(input)\<close>: it parses with a new context, which has
  the default delimiters and is gone when the constructor returns.
\<close>

definition BasicMustache :: "nat \<Rightarrow> string \<Rightarrow> Template outcome" where
  "BasicMustache fuel input =
     (case parse fuel input reset of
        OutOfFuel \<Rightarrow> OutOfFuel
      | Fault f \<Rightarrow> Fault f
      | Done (tmpl, d) \<Rightarrow> Done tmpl)"

section \<open>Data\<close>

text \<open>
  The variant \<^verbatim>\<open>Data\<close>: one constructor for each \<^verbatim>\<open>Data::Type\<close>, with the payload of that
  type. An object is the list of its entries, read with \<^const>\<open>map_of\<close>. A partial and a
  lambda are the functions they hold.
\<close>

datatype Data =
  DObject "(string \<times> Data) list"
  | DString string
  | DList "Data list"
  | DTrue
  | DFalse
  | DPartial "unit \<Rightarrow> string"
  | DLambda "string \<Rightarrow> string"
  | DInvalid

fun isString :: "Data \<Rightarrow> bool" where
  "isString (DString s) = True"
| "isString _ = False"

fun isFalse :: "Data \<Rightarrow> bool" where
  "isFalse DFalse = True"
| "isFalse _ = False"

fun isPartial :: "Data \<Rightarrow> bool" where
  "isPartial (DPartial p) = True"
| "isPartial _ = False"

fun isLambda :: "Data \<Rightarrow> bool" where
  "isLambda (DLambda f) = True"
| "isLambda _ = False"

fun isEmptyList :: "Data \<Rightarrow> bool" where
  "isEmptyList (DList xs) = (xs = [])"
| "isEmptyList _ = False"

fun isNonEmptyList :: "Data \<Rightarrow> bool" where
  "isNonEmptyList (DList xs) = (xs \<noteq> [])"
| "isNonEmptyList _ = False"

text \<open>\<^verbatim>\<open>Data::list\<close>, which the source calls on lists only.\<close>

fun Data_list :: "Data \<Rightarrow> Data list" where
  "Data_list (DList xs) = xs"
| "Data_list _ = []"

text \<open>\<^verbatim>\<open>Data::get\<close>: a null pointer is \<^const>\<open>None\<close>.\<close>

fun Data_get :: "Data \<Rightarrow> string \<Rightarrow> Data option" where
  "Data_get (DObject obj) n = map_of obj n"
| "Data_get _ n = None"

section \<open>The context\<close>

text \<open>
  \<^verbatim>\<open>Context::split\<close> reads items with \<^verbatim>\<open>std::getline\<close>: an item ends at the delimiter or at
  the end of the string, and there is no item when nothing is left to read. \<open>item\<close> is
  the item read so far.
\<close>

fun split_from :: "char \<Rightarrow> string \<Rightarrow> string \<Rightarrow> string list" where
  "split_from delim item [] = (if item = [] then [] else [item])"
| "split_from delim item (ch # s) =
     (if ch = delim then item # split_from delim [] s else split_from delim (item @ [ch]) s)"

definition Context_split :: "string \<Rightarrow> char \<Rightarrow> string list" where
  "Context_split s delim = split_from delim [] s"

text \<open>The inner loop of \<^verbatim>\<open>Context::get\<close>: it follows the names from \<open>var\<close>.\<close>

primrec get_names :: "Data \<Rightarrow> string list \<Rightarrow> Data option" where
  "get_names var [] = Some var"
| "get_names var (n # names) =
     (case Data_get var n of None \<Rightarrow> None | Some var' \<Rightarrow> get_names var' names)"

text \<open>The outer loop, over the frames, innermost first.\<close>

primrec get_items :: "Data list \<Rightarrow> string list \<Rightarrow> Data option" where
  "get_items [] names = None"
| "get_items (item # items) names =
     (case get_names item names of None \<Rightarrow> get_items items names | Some var \<Rightarrow> Some var)"

text \<open>
  \<^verbatim>\<open>Context::get\<close> on the frames \<open>items\<close> (\<^verbatim>\<open>items_\<close>, the front first).
\<close>

definition Context_get :: "Data list \<Rightarrow> string \<Rightarrow> fault + Data option" where
  "Context_get items n =
     (if length n = 1 \<and> n ! 0 = CHR ''.'' then
        (case items of [] \<Rightarrow> Inl EmptyVector | front # _ \<Rightarrow> Inr (Some front))
      else
        let names = Context_split n (CHR ''.'');
            names' = (if names = [] then [[]] else names)
        in Inr (get_items items names'))"

primrec get_partial :: "Data list \<Rightarrow> string \<Rightarrow> Data option" where
  "get_partial [] n = None"
| "get_partial (item # items) n =
     (case Data_get item n of None \<Rightarrow> get_partial items n | Some var \<Rightarrow> Some var)"

section \<open>The renderer\<close>

text \<open>
  What rendering reads and writes: the text the handler has been given so far, the
  context (its frames and its delimiter set), and \<^verbatim>\<open>errorMessage_\<close> of the template whose
  member functions run.
\<close>

record RenderState =
  written :: string
  ctx_items :: "Data list"
  ctx_delims :: DelimiterSet
  this_errorMessage :: string

definition handler :: "string \<Rightarrow> RenderState \<Rightarrow> RenderState" where
  "handler str st = st\<lparr>written := written st @ str\<rparr>"

definition push :: "Data \<Rightarrow> RenderState \<Rightarrow> RenderState" where
  "push d st = st\<lparr>ctx_items := d # ctx_items st\<rparr>"

text \<open>\<^verbatim>\<open>pop\<close> runs in the destructor of a \<^verbatim>\<open>ContextPusher\<close>, whose constructor pushed.\<close>

definition pop :: "RenderState \<Rightarrow> RenderState" where
  "pop st = st\<lparr>ctx_items := tl (ctx_items st)\<rparr>"

text \<open>
  The private \<^verbatim>\<open>render(handler, ctx)\<close> of a template \<open>tmpl\<close>, called from a member function
  of another template: inside, \<^verbatim>\<open>errorMessage_\<close> is that of \<open>tmpl\<close>. \<open>rc\<close> is the callback,
  \<^verbatim>\<open>renderComponent\<close>.
\<close>

definition render_sub ::
  "nat \<Rightarrow> RenderState WalkCallback \<Rightarrow> Template \<Rightarrow> RenderState \<Rightarrow> RenderState outcome" where
  "render_sub fuel rc tmpl st =
     walkChildren fuel rc (rootComponent tmpl) (st\<lparr>this_errorMessage := errorMessage tmpl\<rparr>)"

text \<open>The loop of \<^verbatim>\<open>renderSection\<close> over the items of a list; \<open>w\<close> walks the children.\<close>

primrec renderSection_loop ::
  "(RenderState \<Rightarrow> RenderState outcome) \<Rightarrow> Data list \<Rightarrow> RenderState \<Rightarrow> RenderState outcome" where
  "renderSection_loop w [] st = Done st"
| "renderSection_loop w (item # rest) st =
     (case w (push item st) of
        OutOfFuel \<Rightarrow> OutOfFuel
      | Fault f \<Rightarrow> Fault f
      | Done st' \<Rightarrow> renderSection_loop w rest (pop st'))"

definition renderSection ::
  "nat \<Rightarrow> RenderState WalkCallback \<Rightarrow> Component \<Rightarrow> Data option \<Rightarrow> RenderState
     \<Rightarrow> RenderState outcome" where
  "renderSection fuel rc incomp var st =
     (case var of
        Some v \<Rightarrow>
          if isNonEmptyList v then
            renderSection_loop (walkChildren fuel rc incomp) (Data_list v) st
          else
            (case walkChildren fuel rc incomp (push v st) of
               OutOfFuel \<Rightarrow> OutOfFuel
             | Fault f \<Rightarrow> Fault f
             | Done st' \<Rightarrow> Done (pop st'))
      | None \<Rightarrow> walkChildren fuel rc incomp st)"

text \<open>
  \<^verbatim>\<open>renderLambda\<close>. The lambda returns a string, so the assertion on its result holds.
  With \<open>parseWithSameContext\<close> the result is parsed with the context, whose delimiter set
  the parse reads and changes; otherwise with a new context. The sub-template is
  rendered into a stream of its own.
\<close>

definition renderLambda ::
  "nat \<Rightarrow> RenderState WalkCallback \<Rightarrow> Data \<Rightarrow> bool \<Rightarrow> string \<Rightarrow> bool \<Rightarrow> RenderState
     \<Rightarrow> (bool \<times> RenderState) outcome" where
  "renderLambda fuel rc var escaped txt parseWithSameContext st =
     (case var of
        DLambda f \<Rightarrow>
          (case parse fuel (f txt) (if parseWithSameContext then ctx_delims st else reset) of
             OutOfFuel \<Rightarrow> OutOfFuel
           | Fault e \<Rightarrow> Fault e
           | Done (tmpl, d) \<Rightarrow>
               let st1 = (if parseWithSameContext then st\<lparr>ctx_delims := d\<rparr> else st) in
               if \<not> isValid tmpl then Done (False, st1\<lparr>this_errorMessage := errorMessage tmpl\<rparr>)
               else
                 (case render_sub fuel rc tmpl (st1\<lparr>written := []\<rparr>) of
                    OutOfFuel \<Rightarrow> OutOfFuel
                  | Fault e \<Rightarrow> Fault e
                  | Done st2 \<Rightarrow>
                      let str = written st2;
                          st3 = st2\<lparr>written := written st1,
                                    this_errorMessage := this_errorMessage st1\<rparr>
                      in if this_errorMessage st2 \<noteq> []
                         then Done (False, st3\<lparr>this_errorMessage := this_errorMessage st2\<rparr>)
                         else Done (True, handler (if escaped then escape str else str) st3)))
      | _ \<Rightarrow> Fault NullPointer)"

definition renderVariable ::
  "nat \<Rightarrow> RenderState WalkCallback \<Rightarrow> Data \<Rightarrow> bool \<Rightarrow> RenderState
     \<Rightarrow> (bool \<times> RenderState) outcome" where
  "renderVariable fuel rc var escaped st =
     (case var of
        DString varstr \<Rightarrow> Done (True, handler (if escaped then escape varstr else varstr) st)
      | DLambda f \<Rightarrow> renderLambda fuel rc var escaped [] False st
      | _ \<Rightarrow> Done (True, st))"

text \<open>
  \<^verbatim>\<open>renderComponent\<close>, with \<open>rc\<close> for the calls of itself that it makes through the walker.
  It leaves the component as it is.
\<close>

definition renderComponent_body ::
  "nat \<Rightarrow> RenderState WalkCallback \<Rightarrow> RenderState WalkCallback" where
  "renderComponent_body fuel rc cmp depth st =
     (if isText cmp then Done (Continue, cmp, handler (comp_text cmp) st)
      else
        let t = comp_tag cmp in
        if tag_type t = Variable \<or> tag_type t = UnescapedVariable then
          (case Context_get (ctx_items st) (tag_name t) of
             Inl e \<Rightarrow> Fault e
           | Inr None \<Rightarrow> Done (Continue, cmp, st)
           | Inr (Some var) \<Rightarrow>
               (case renderVariable fuel rc var (tag_type t = Variable) st of
                  OutOfFuel \<Rightarrow> OutOfFuel
                | Fault e \<Rightarrow> Fault e
                | Done (ok, st') \<Rightarrow>
                    if \<not> ok then Done (Stop, cmp, st') else Done (Continue, cmp, st')))
        else if tag_type t = SectionBegin then
          (case Context_get (ctx_items st) (tag_name t) of
             Inl e \<Rightarrow> Fault e
           | Inr None \<Rightarrow> Done (Skip, cmp, st)
           | Inr (Some var) \<Rightarrow>
               if isLambda var then
                 (case sectionText t of
                    None \<Rightarrow> Fault NullPointer
                  | Some txt \<Rightarrow>
                      (case renderLambda fuel rc var False txt True st of
                         OutOfFuel \<Rightarrow> OutOfFuel
                       | Fault e \<Rightarrow> Fault e
                       | Done (ok, st') \<Rightarrow>
                           if \<not> ok then Done (Stop, cmp, st') else Done (Skip, cmp, st')))
               else if \<not> isFalse var \<and> \<not> isEmptyList var then
                 (case renderSection fuel rc cmp (Some var) st of
                    OutOfFuel \<Rightarrow> OutOfFuel
                  | Fault e \<Rightarrow> Fault e
                  | Done st' \<Rightarrow> Done (Skip, cmp, st'))
               else Done (Skip, cmp, st))
        else if tag_type t = SectionBeginInverted then
          (case Context_get (ctx_items st) (tag_name t) of
             Inl e \<Rightarrow> Fault e
           | Inr var \<Rightarrow>
               if var = None \<or> isFalse (the var) \<or> isEmptyList (the var) then
                 (case renderSection fuel rc cmp var st of
                    OutOfFuel \<Rightarrow> OutOfFuel
                  | Fault e \<Rightarrow> Fault e
                  | Done st' \<Rightarrow> Done (Skip, cmp, st'))
               else Done (Skip, cmp, st))
        else if tag_type t = Partial then
          (case get_partial (ctx_items st) (tag_name t) of
             Some (DPartial partial) \<Rightarrow>
               (case parse fuel (partial ()) reset of
                  OutOfFuel \<Rightarrow> OutOfFuel
                | Fault e \<Rightarrow> Fault e
                | Done (tmpl, d) \<Rightarrow>
                    if \<not> isValid tmpl then
                      Done (Stop, cmp, st\<lparr>this_errorMessage := errorMessage tmpl\<rparr>)
                    else
                      (case render_sub fuel rc tmpl st of
                         OutOfFuel \<Rightarrow> OutOfFuel
                       | Fault e \<Rightarrow> Fault e
                       | Done st' \<Rightarrow>
                           if this_errorMessage st' \<noteq> [] then Done (Stop, cmp, st')
                           else
                             Done (Continue, cmp,
                               st'\<lparr>this_errorMessage := this_errorMessage st\<rparr>)))
           | _ \<Rightarrow> Done (Continue, cmp, st))
        else if tag_type t = SetDelimiter then
          (case tag_delimiterSet t of
             None \<Rightarrow> Fault NullPointer
           | Some d \<Rightarrow> Done (Continue, cmp, st\<lparr>ctx_delims := d\<rparr>))
        else Done (Continue, cmp, st))"

text \<open>
  The recursion of \<^verbatim>\<open>renderComponent\<close>, through sections, partials and lambdas, need not
  end (a partial can include itself): it is run with fuel.
\<close>

primrec renderComponent :: "nat \<Rightarrow> RenderState WalkCallback" where
  "renderComponent 0 = (\<lambda>cmp depth st. OutOfFuel)"
| "renderComponent (Suc fuel) = renderComponent_body fuel (renderComponent fuel)"

text \<open>
  The public \<^verbatim>\<open>render(data)\<close>: a context with the frame \<open>data\<close> and the default delimiters, the
  walk of the tree, and the text written. The call can set \<^verbatim>\<open>errorMessage_\<close>.
\<close>

definition render :: "nat \<Rightarrow> Template \<Rightarrow> Data \<Rightarrow> (string \<times> Template) outcome" where
  "render fuel tmpl data =
     (case walkChildren fuel (renderComponent fuel) (rootComponent tmpl)
             \<lparr>written = [], ctx_items = [data], ctx_delims = reset,
              this_errorMessage = errorMessage tmpl\<rparr> of
        OutOfFuel \<Rightarrow> OutOfFuel
      | Fault e \<Rightarrow> Fault e
      | Done st \<Rightarrow> Done (written st, tmpl\<lparr>errorMessage := this_errorMessage st\<rparr>))"

section \<open>The set-delimiter tag as the specification describes it\<close>

text \<open>
  These definitions follow the words of the specification, not the code: the contents of
  the tag without its first and last character, trimmed; the new begin marker, the text
  before the first space; the new end marker, the text from the first character after that
  space that is not a space; a marker is legal when it is not empty and has neither white
  space nor an equals sign.
\<close>

definition set_delimiter_interior :: "string \<Rightarrow> string" where
  "set_delimiter_interior contents = trim (butlast (tl contents))"

definition new_begin_marker :: "string \<Rightarrow> string" where
  "new_begin_marker r = takeWhile (\<lambda>ch. ch \<noteq> CHR '' '') r"

definition new_end_marker :: "string \<Rightarrow> string" where
  "new_end_marker r = dropWhile (\<lambda>ch. ch = CHR '' '') (dropWhile (\<lambda>ch. ch \<noteq> CHR '' '') r)"

definition legal_marker :: "string \<Rightarrow> bool" where
  "legal_marker m \<longleftrightarrow> m \<noteq> [] \<and> list_all (\<lambda>ch. \<not> isspace ch \<and> ch \<noteq> CHR ''='') m"

definition set_delimiter_accepted :: "string \<Rightarrow> bool" where
  "set_delimiter_accepted contents \<longleftrightarrow>
     5 \<le> length contents \<and> last contents = CHR ''='' \<and>
     CHR '' '' \<in> set (set_delimiter_interior contents) \<and>
     legal_marker (new_begin_marker (set_delimiter_interior contents)) \<and>
     legal_marker (new_end_marker (set_delimiter_interior contents))"

section \<open>Name resolution as the specification describes it\<close>

text \<open>
  These definitions follow the words of the specification: within one frame the segments of
  a name are walked from left to right with \<^verbatim>\<open>Data.get\<close>, and the walk is absent as soon as one
  segment is; the lookup returns what the first frame, from the innermost outward, in which
  every segment resolves gives, and is absent when there is no such frame.
\<close>

definition resolve_in_frame :: "Data \<Rightarrow> string list \<Rightarrow> Data option" where
  "resolve_in_frame frame segments =
     foldl (\<lambda>v n. case v of None \<Rightarrow> None | Some d \<Rightarrow> Data_get d n) (Some frame) segments"

definition resolves :: "string list \<Rightarrow> Data \<Rightarrow> bool" where
  "resolves segments frame = (case resolve_in_frame frame segments of None \<Rightarrow> False | Some v \<Rightarrow> True)"

definition first_resolved :: "Data list \<Rightarrow> string list \<Rightarrow> Data option" where
  "first_resolved frames segments =
     (case List.find (resolves segments) frames of
        None \<Rightarrow> None
      | Some frame \<Rightarrow> resolve_in_frame frame segments)"

section \<open>A section whose value is a lambda, as the specification describes it\<close>

text \<open>
  This definition follows the words of the specification: call the lambda \<open>f\<close> on the section
  text \<open>txt\<close>; parse what it returns as a template, with the delimiter state of the context;
  render that template under the context; write the result unescaped, behind what was
  written before. An error of the parse or of the render becomes the error message of the
  template being rendered, and stops the walk. \<open>cmp\<close> is the section's component, which
  the callback hands back as it is.
\<close>

definition lambda_section ::
  "nat \<Rightarrow> (string \<Rightarrow> string) \<Rightarrow> string \<Rightarrow> Component \<Rightarrow> RenderState
     \<Rightarrow> (WalkControl \<times> Component \<times> RenderState) outcome" where
  "lambda_section fuel f txt cmp st =
     (case parse fuel (f txt) (ctx_delims st) of
        OutOfFuel \<Rightarrow> OutOfFuel
      | Fault e \<Rightarrow> Fault e
      | Done (tmpl, d) \<Rightarrow>
          if \<not> isValid tmpl then
            Done (Stop, cmp, st\<lparr>ctx_delims := d, this_errorMessage := errorMessage tmpl\<rparr>)
          else
            (case walkChildren fuel (renderComponent fuel) (rootComponent tmpl)
                    (st\<lparr>ctx_delims := d, written := [], this_errorMessage := []\<rparr>) of
               OutOfFuel \<Rightarrow> OutOfFuel
             | Fault e \<Rightarrow> Fault e
             | Done st2 \<Rightarrow>
                 if this_errorMessage st2 \<noteq> [] then
                   Done (Stop, cmp, st2\<lparr>written := written st\<rparr>)
                 else
                   Done (Skip, cmp,
                     st2\<lparr>written := written st @ written st2,
                         this_errorMessage := this_errorMessage st\<rparr>)))"

section \<open>Example components and states\<close>

text \<open>
  The inverted section that the parser builds from \<^verbatim>\<open>{{^a}}{{.}}{{/a}}\<close>: its body is the
  implicit iterator.
\<close>

definition inverted_a :: Component where
  "inverted_a =
     Component []
       \<lparr>tag_name = ''a'', tag_type = SectionBeginInverted, sectionText = Some ''{{.}}'',
        tag_delimiterSet = None\<rparr>
       [Component []
          \<lparr>tag_name = ''.'', tag_type = Variable, sectionText = None, tag_delimiterSet = None\<rparr>
          [] 6,
        Component []
          \<lparr>tag_name = ''a'', tag_type = SectionEnd, sectionText = None, tag_delimiterSet = None\<rparr>
          [] 11]
       0"

text \<open>
  The section that the parser builds from \<^verbatim>\<open><%#lam%> {{n}} <%n%><%/lam%>\<close> under the delimiters
  \<^verbatim>\<open><%\<close> and \<^verbatim>\<open>%>\<close>; a state of the renderer with these delimiters, in which \<^verbatim>\<open>lam\<close> is a lambda
  that puts its argument between angle brackets.
\<close>

definition lam_section :: Component where
  "lam_section =
     Component []
        \<lparr>tag_name = ''lam'', tag_type = SectionBegin, sectionText = Some '' {{n}} <%n%>'',
         tag_delimiterSet = None\<rparr>
        [Component '' {{n}} '' new_Tag [] 19,
         Component []
           \<lparr>tag_name = ''n'', tag_type = Variable, sectionText = None, tag_delimiterSet = None\<rparr>
           [] 26,
         Component []
           \<lparr>tag_name = ''lam'', tag_type = SectionEnd, sectionText = None,
            tag_delimiterSet = None\<rparr> [] 31]
        11"

definition lam_state :: RenderState where
  "lam_state =
     \<lparr>written = ''pre'',
      ctx_items = [DObject [(''lam'', DLambda (\<lambda>t. ''<'' @ t @ ''>'')), (''n'', DString ''z'')]],
      ctx_delims = \<lparr>delim_begin = ''<%'', delim_end = ''%>''\<rparr>,
      this_errorMessage = []\<rparr>"

text \<open>
  The states of the parser on \<^verbatim>\<open>{{#a}}y{{#lam}}A{{/lam}}{{/a}}\<close> after the tag \<^verbatim>\<open>{{#a}}\<close> and after
  the tag \<^verbatim>\<open>{{#lam}}\<close>: the section \<^verbatim>\<open>lam\<close> is the second child of the section \<^verbatim>\<open>a\<close>.
\<close>

definition after_outer_begin :: ParseState where
  "after_outer_begin =
     \<lparr>ctx_delimiterSet = reset,
      currentDelimiterIsBrace = True,
      sections = [[], [0]],
      sectionStarts = [6],
      inputPosition = 6,
      ps_errorMessage = [],
      ps_rootComponent =
        Component [] new_Tag
          [Component []
             \<lparr>tag_name = ''a'', tag_type = SectionBegin, sectionText = None,
              tag_delimiterSet = None\<rparr> [] 0]
          npos\<rparr>"

definition after_inner_begin :: ParseState where
  "after_inner_begin =
     \<lparr>ctx_delimiterSet = reset,
      currentDelimiterIsBrace = True,
      sections = [[], [0], [0, 1]],
      sectionStarts = [6, 15],
      inputPosition = 15,
      ps_errorMessage = [],
      ps_rootComponent =
        Component [] new_Tag
          [Component []
             \<lparr>tag_name = ''a'', tag_type = SectionBegin, sectionText = None,
              tag_delimiterSet = None\<rparr>
             [Component ''y'' new_Tag [] 6,
              Component []
                \<lparr>tag_name = ''lam'', tag_type = SectionBegin, sectionText = None,
                 tag_delimiterSet = None\<rparr> [] 7]
             0]
          npos\<rparr>"

text \<open>
  The template that the parser builds from \<^verbatim>\<open>x{{#a}}y{{#lam}} hi {{n}} {{/lam}}{{/a}}\<close>: the
  section \<^verbatim>\<open>lam\<close> is the second child of the section \<^verbatim>\<open>a\<close>, which is the second child of the
  root.
\<close>

definition nested_template :: Template where
  "nested_template =
     \<lparr>errorMessage = [],
      rootComponent =
        Component [] new_Tag
          [Component ''x'' new_Tag [] 0,
           Component []
             \<lparr>tag_name = ''a'', tag_type = SectionBegin,
              sectionText = Some ''y{{#lam}} hi {{n}} {{/lam}}'', tag_delimiterSet = None\<rparr>
             [Component ''y'' new_Tag [] 7,
              Component []
                \<lparr>tag_name = ''lam'', tag_type = SectionBegin,
                 sectionText = Some '' hi {{n}} '', tag_delimiterSet = None\<rparr>
                [Component '' hi '' new_Tag [] 16,
                 Component []
                   \<lparr>tag_name = ''n'', tag_type = Variable, sectionText = None,
                    tag_delimiterSet = None\<rparr> [] 20,
                 Component '' '' new_Tag [] 25,
                 Component []
                   \<lparr>tag_name = ''lam'', tag_type = SectionEnd, sectionText = None,
                    tag_delimiterSet = None\<rparr> [] 26]
                8,
              Component []
                \<lparr>tag_name = ''a'', tag_type = SectionEnd, sectionText = None,
                 tag_delimiterSet = None\<rparr> [] 34]
             1]
          npos\<rparr>"

section \<open>Invariants of the parser\<close>

text \<open>
  \<open>shallow n c\<close>: the tree under \<open>c\<close> has fewer than \<open>n\<close> levels, so that a walk with fuel
  \<open>n\<close> reaches all of it.
\<close>

primrec shallow :: "nat \<Rightarrow> Component \<Rightarrow> bool" where
  "shallow 0 c = False"
| "shallow (Suc n) c = list_all (shallow n) (children c)"

text \<open>
  What holds of the state of \<^verbatim>\<open>parse\<close> before each run of its loop: the delimiters are not
  empty, \<^verbatim>\<open>currentDelimiterIsBrace\<close> says whether they are the default ones, the scan
  position is in the input, there is an open section (the root at least), and neither the
  pointers to the open sections nor the tree are deeper than the number of characters read.
\<close>

definition parse_inv :: "string \<Rightarrow> ParseState \<Rightarrow> bool" where
  "parse_inv input st \<longleftrightarrow>
     delimiters_nonempty st \<and>
     currentDelimiterIsBrace st = isDefault (ctx_delimiterSet st) \<and>
     inputPosition st \<le> length input \<and>
     sections st \<noteq> [] \<and>
     list_all (\<lambda>q. length q \<le> inputPosition st) (sections st) \<and>
     shallow (Suc (inputPosition st)) (ps_rootComponent st)"

section \<open>The section texts\<close>

text \<open>
  \<open>section_texts_ok input c\<close>: in the tree under \<open>c\<close>, every component that has a section text
  is a section with children, its last child is a section-end tag, and the text is the
  bytes of \<open>input\<close> from the position of its first child up to the position of that last
  child. The positions of the components are those of \<^verbatim>\<open>parse\<close>: a text component starts
  where the scan stood, a tag component where its opening delimiter was found.
\<close>

fun section_texts_ok :: "string \<Rightarrow> Component \<Rightarrow> bool" where
  "section_texts_ok input (Component t g cs p) =
     ((case sectionText g of
         None \<Rightarrow> True
       | Some txt \<Rightarrow>
           isSectionBegin g \<and> cs \<noteq> [] \<and> isSectionEnd (comp_tag (last cs)) \<and>
           txt = substr input (position (hd cs)) (position (last cs) - position (hd cs))) \<and>
      list_all (section_texts_ok input) cs)"

text \<open>
  \<open>open_sections c p starts pos\<close>: the pointer \<open>p\<close> leads from \<open>c\<close> through sections that have
  no text yet, one for each position in \<open>starts\<close>, the outermost first; and each of these
  positions is where the first child of its section starts, or the scan position \<open>pos\<close>
  when the section has no child yet.
\<close>

fun open_sections :: "Component \<Rightarrow> nat list \<Rightarrow> nat list \<Rightarrow> nat \<Rightarrow> bool" where
  "open_sections c [] starts pos = (starts = [])"
| "open_sections c (i # p) [] pos = False"
| "open_sections c (i # p) (s # starts) pos =
     (i < length (children c) \<and>
      isSectionBegin (comp_tag (children c ! i)) \<and>
      sectionText (comp_tag (children c ! i)) = None \<and>
      (if children (children c ! i) = [] then pos = s
       else position (hd (children (children c ! i))) = s) \<and>
      open_sections (children c ! i) p starts pos)"

text \<open>
  What holds of \<^verbatim>\<open>sections\<close> and \<^verbatim>\<open>sectionStarts\<close> before each run of the loop of \<^verbatim>\<open>parse\<close>:
  \<^verbatim>\<open>sections\<close> holds the pointers to the root and to the open sections, each the parent of
  the next; \<^verbatim>\<open>sectionStarts\<close> holds, for each open section, the position where its first
  child starts; and the texts of the sections closed so far are in order.
\<close>

definition sections_inv :: "string \<Rightarrow> ParseState \<Rightarrow> bool" where
  "sections_inv input ps \<longleftrightarrow>
     sections ps = prefixes (last (sections ps)) \<and>
     sectionText (comp_tag (ps_rootComponent ps)) = None \<and>
     open_sections (ps_rootComponent ps) (last (sections ps)) (sectionStarts ps) (inputPosition ps) \<and>
     section_texts_ok input (ps_rootComponent ps)"

section \<open>Evaluation\<close>

text \<open>The definitions that evaluate the model on a given input.\<close>

lemmas string_eval =
  str_find_def substr_def trim_def isspace_def find_char_def find_first_not_of_def

lemmas delimiter_eval =
  isDefault_def reset_def defaultBegin_def defaultEnd_def isSetDelimiterValid_def

lemmas set_delimiter_spec_eval =
  set_delimiter_accepted_def set_delimiter_interior_def new_begin_marker_def new_end_marker_def
  legal_marker_def

lemmas tree_eval =
  isSectionBegin_def isSectionEnd_def isText_def new_Tag_def new_Component_def text_Component_def
  push_back_child_def pop_back_child_def set_sectionText_def

lemmas parse_eval =
  BasicMustache_def parse_def new_ParseState_def walkChildren_def check_section_def
  parse_step_def parse_tag_def push_or_pop_def parseTagContents_def tag_type_of_sigil_def
  tagIsUnescapedVar_def size_sub_def add_child_def parseSetDelimiterTag_def isValid_def
  show_nat.simps

lemmas render_eval =
  render_def renderComponent_body_def renderSection_def renderLambda_def renderVariable_def
  render_sub_def handler_def push_def pop_def Context_get_def Context_split_def escape_char_def

text \<open>At the end of the input the loop of the parser is over, whatever fuel is left.\<close>

lemma parse_loop_at_end:
  "inputPosition st = length input \<Longrightarrow> parse_loop fuel input st = Done (True, st)"
  by (cases fuel) simp_all

section \<open>Searching and trimming\<close>

lemma find_char_in_eq:
  "find_char_in ch xs i =
     (if ch \<in> set xs then Some (i + length (takeWhile (\<lambda>x. x \<noteq> ch) xs)) else None)"
  by (induction xs arbitrary: i) auto

lemma find_not_in_eq:
  "find_not_in ch xs i =
     (if list_all (\<lambda>x. x = ch) xs then None else Some (i + length (takeWhile (\<lambda>x. x = ch) xs)))"
  by (induction xs arbitrary: i) auto

lemma trim_prefix: "prefix (trim s) (dropWhile isspace s)"
proof -
  have "suffix (dropWhile isspace (rev (dropWhile isspace s))) (rev (dropWhile isspace s))"
    by (rule suffix_dropWhile)
  then show ?thesis
    by (simp add: trim_def suffix_to_prefix)
qed

lemma trim_hd: "trim s \<noteq> [] \<Longrightarrow> \<not> isspace (hd (trim s))"
proof -
  assume ne: "trim s \<noteq> []"
  obtain zs where zs: "dropWhile isspace s = trim s @ zs"
    using trim_prefix [of s] by (auto simp: prefix_def)
  with ne have "hd (trim s) = hd (dropWhile isspace s)" by simp
  moreover have "dropWhile isspace s \<noteq> []" using zs ne by simp
  ultimately show ?thesis using hd_dropWhile [of isspace s] by simp
qed

lemma trim_last: "trim s \<noteq> [] \<Longrightarrow> \<not> isspace (last (trim s))"
proof -
  assume ne: "trim s \<noteq> []"
  let ?t = "dropWhile isspace (rev (dropWhile isspace s))"
  have "?t \<noteq> []" using ne by (simp add: trim_def)
  then have "\<not> isspace (hd ?t)" by (rule hd_dropWhile)
  moreover have "last (trim s) = hd ?t" using \<open>?t \<noteq> []\<close> by (simp add: trim_def last_rev)
  ultimately show ?thesis by simp
qed

lemma space_isspace: "isspace (CHR '' '')"
  by (simp add: isspace_def)

lemma substr_strip: "substr c (Suc 0) (length c - 2) = butlast (tl c)"
  by (simp add: substr_def butlast_conv_take drop_Suc numeral_2_eq_2)

lemma dropWhile_neq_space:
  assumes "CHR '' '' \<in> set r"
  shows "dropWhile (\<lambda>ch. ch \<noteq> CHR '' '') r = CHR '' '' # drop (Suc (length (new_begin_marker r))) r"
proof -
  let ?P = "\<lambda>ch. ch \<noteq> CHR '' ''"
  have ne: "dropWhile ?P r \<noteq> []" using assms by (simp add: dropWhile_eq_Nil_conv)
  then have "hd (dropWhile ?P r) = CHR '' ''" using hd_dropWhile [of ?P r] by simp
  moreover have "tl (dropWhile ?P r) = drop (Suc (length (takeWhile ?P r))) r"
    by (simp add: dropWhile_eq_drop tl_drop drop_Suc)
  ultimately show ?thesis using ne
    by (metis list.collapse new_begin_marker_def)
qed

lemma trimmed_space_tail:
  assumes "r = trim x" and "CHR '' '' \<in> set r"
  shows "\<not> list_all (\<lambda>ch. ch = CHR '' '') (drop (Suc (length (new_begin_marker r))) r)"
proof
  let ?tl = "drop (Suc (length (new_begin_marker r))) r"
  assume all: "list_all (\<lambda>ch. ch = CHR '' '') ?tl"
  have r: "r = new_begin_marker r @ CHR '' '' # ?tl"
    using dropWhile_neq_space [OF assms(2)] takeWhile_dropWhile_id [of "\<lambda>ch. ch \<noteq> CHR '' ''" r]
    by (simp add: new_begin_marker_def)
  have "last r = CHR '' ''"
  proof (cases "?tl = []")
    case True
    with r have "r = new_begin_marker r @ [CHR '' '']" by simp
    then show ?thesis by (metis last_snoc)
  next
    case False
    then have "last ?tl \<in> set ?tl" by (rule last_in_set)
    with all have "last ?tl = CHR '' ''" by (simp add: list_all_iff)
    moreover have "last r = last ?tl" using False r by (metis last_appendR last_ConsR list.distinct(1))
    ultimately show ?thesis by simp
  qed
  moreover have "r \<noteq> []" using assms(2) by auto
  ultimately show False using trim_last [of x] assms(1) space_isspace by simp
qed

lemma trimmed_begin_nonempty:
  assumes "r = trim x" and "CHR '' '' \<in> set r"
  shows "new_begin_marker r \<noteq> []"
proof -
  have "r \<noteq> []" using assms(2) by auto
  then have "\<not> isspace (hd r)" using trim_hd [of x] assms(1) by simp
  then have "hd r \<noteq> CHR '' ''" using space_isspace by auto
  with \<open>r \<noteq> []\<close> show ?thesis
    by (cases r) (simp_all add: new_begin_marker_def)
qed

lemma set_delimiter_search:
  assumes "r = trim x" and "CHR '' '' \<in> set r"
  shows "find_char r (CHR '' '') = Some (length (new_begin_marker r))"
    and "find_first_not_of r (CHR '' '') (length (new_begin_marker r) + 1)
           = Some (length r - length (new_end_marker r))"
    and "substr r 0 (length (new_begin_marker r)) = new_begin_marker r"
    and "substr r (length r - length (new_end_marker r)) (length r - (length r - length (new_end_marker r)))
           = new_end_marker r"
    and "new_end_marker r \<noteq> []"
proof -
  let ?b = "new_begin_marker r"
  let ?tl = "drop (Suc (length ?b)) r"
  let ?S = "\<lambda>ch. ch = CHR '' ''"
  show "find_char r (CHR '' '') = Some (length ?b)"
    using assms(2) by (simp add: find_char_def find_char_in_eq new_begin_marker_def)
  have e: "new_end_marker r = dropWhile ?S ?tl"
    by (simp add: new_end_marker_def dropWhile_neq_space [OF assms(2)])
  have nall: "\<not> list_all ?S ?tl" by (rule trimmed_space_tail [OF assms])
  then show "new_end_marker r \<noteq> []"
    by (simp add: e dropWhile_eq_Nil_conv list_all_iff)
  have len: "length (takeWhile ?S ?tl) + length (dropWhile ?S ?tl) = length ?tl"
    by (metis length_append takeWhile_dropWhile_id)
  have le: "Suc (length ?b) \<le> length r"
    using nall by (cases "Suc (length ?b) \<le> length r") simp_all
  have pos: "Suc (length ?b) + length (takeWhile ?S ?tl) = length r - length (new_end_marker r)"
    using len le by (simp add: e)
  show "find_first_not_of r (CHR '' '') (length ?b + 1) = Some (length r - length (new_end_marker r))"
    using nall pos by (simp add: find_first_not_of_def find_not_in_eq)
  show "substr r 0 (length ?b) = ?b"
    by (simp add: substr_def new_begin_marker_def takeWhile_eq_take [symmetric])
  have "drop (length (takeWhile ?S ?tl)) ?tl = drop (length (takeWhile ?S ?tl) + Suc (length ?b)) r"
    by simp
  also have "\<dots> = drop (length r - length (new_end_marker r)) r"
    using pos by (simp only: add.commute)
  finally have "drop (length r - length (new_end_marker r)) r = drop (length (takeWhile ?S ?tl)) ?tl"
    by (rule sym)
  also have "\<dots> = new_end_marker r" by (simp only: e dropWhile_eq_drop)
  finally have d: "drop (length r - length (new_end_marker r)) r = new_end_marker r" .
  have "length (new_end_marker r) \<le> length r"
    using len by (simp add: e)
  then show "substr r (length r - length (new_end_marker r)) (length r - (length r - length (new_end_marker r)))
           = new_end_marker r"
    by (simp add: substr_def d)
qed

lemma isSetDelimiterValid_legal: "m \<noteq> [] \<Longrightarrow> isSetDelimiterValid m = legal_marker m"
  by (auto simp: isSetDelimiterValid_def legal_marker_def list_all_iff)

lemma parseSetDelimiterTag_spec:
  "parseSetDelimiterTag contents delimiterSet =
     (if set_delimiter_accepted contents
      then Inr (True, \<lparr>delim_begin = new_begin_marker (set_delimiter_interior contents),
                        delim_end = new_end_marker (set_delimiter_interior contents)\<rparr>)
      else Inr (False, delimiterSet))"
proof (cases "5 \<le> length contents \<and> last contents = CHR ''='' \<and> CHR '' '' \<in> set (set_delimiter_interior contents)")
  case False
  then show ?thesis
    by (auto simp: parseSetDelimiterTag_def set_delimiter_accepted_def set_delimiter_interior_def
        substr_strip find_char_def find_char_in_eq Let_def)
next
  case True
  let ?r = "set_delimiter_interior contents"
  have r: "?r = trim (butlast (tl contents))" by (simp add: set_delimiter_interior_def)
  have sp: "CHR '' '' \<in> set ?r" using True by simp
  note s = set_delimiter_search [OF r sp]
  have b: "new_begin_marker ?r \<noteq> []" by (rule trimmed_begin_nonempty [OF r sp])
  have sub: "trim (substr contents (Suc 0) (length contents - 2)) = ?r"
    by (simp add: substr_strip set_delimiter_interior_def)
  show ?thesis
    using True s b
    by (simp add: parseSetDelimiterTag_def sub Let_def set_delimiter_accepted_def isSetDelimiterValid_legal)
qed

lemma nonspace_bounds:
  assumes "r = trim x" and "CHR '' '' \<in> set r"
  shows "length (new_begin_marker r) < length r - length (new_end_marker r)"
    and "length r - length (new_end_marker r) < length r"
proof -
  let ?tl = "drop (Suc (length (new_begin_marker r))) r"
  note s = set_delimiter_search [OF assms]
  have "length (new_end_marker r) \<le> length r"
    unfolding new_end_marker_def by (meson length_dropWhile_le order_trans)
  moreover have "0 < length (new_end_marker r)" using s(5) by simp
  ultimately show "length r - length (new_end_marker r) < length r" by arith
  have "new_end_marker r = dropWhile (\<lambda>ch. ch = CHR '' '') ?tl"
    by (simp add: new_end_marker_def dropWhile_neq_space [OF assms(2)])
  then have "length (new_end_marker r) \<le> length ?tl"
    using length_dropWhile_le [of "\<lambda>ch. ch = CHR '' ''" ?tl] by simp
  moreover have "?tl \<noteq> []" using trimmed_space_tail [OF assms] by auto
  ultimately show "length (new_begin_marker r) < length r - length (new_end_marker r)"
    using \<open>0 < length (new_end_marker r)\<close> by simp
qed

section \<open>The assertion in the set-delimiter parse\<close>

text \<open>
  Claim C10. Let the contents of a tag pass the earlier checks of \<^verbatim>\<open>parseSetDelimiterTag\<close>: at
  least five characters, the last one an equals sign, and a space at \<open>spacepos\<close> in the
  trimmed interior. Then the search for a character other than a space, from
  \<open>spacepos + 1\<close> on, finds one, behind the space and inside the interior; and for no
  contents at all does \<^verbatim>\<open>parseSetDelimiterTag\<close> end in the failed assertion.
\<close>

theorem set_delimiter_search_succeeds:
  "(5 \<le> length contents \<and> last contents = CHR ''='' \<and>
      find_char (trim (substr contents 1 (length contents - 2))) (CHR '' '') = Some spacepos
    \<longrightarrow> (\<exists>nonspace.
          find_first_not_of (trim (substr contents 1 (length contents - 2))) (CHR '' '') (spacepos + 1)
            = Some nonspace \<and>
          spacepos < nonspace \<and>
          nonspace < length (trim (substr contents 1 (length contents - 2)))))
   \<and> parseSetDelimiterTag contents delimiterSet \<noteq> Inl AssertionFailed"
proof (intro conjI impI)
  define r where "r = trim (substr contents 1 (length contents - 2))"
  assume "5 \<le> length contents \<and> last contents = CHR ''='' \<and>
      find_char (trim (substr contents 1 (length contents - 2))) (CHR '' '') = Some spacepos"
  then have a: "find_char r (CHR '' '') = Some spacepos" by (simp add: r_def)
  then have sp: "CHR '' '' \<in> set r"
    by (auto simp: find_char_def find_char_in_eq split: if_splits)
  note s = set_delimiter_search [OF r_def sp]
  note b = nonspace_bounds [OF r_def sp]
  have spacepos: "spacepos = length (new_begin_marker r)" using a s(1) by simp
  have "\<exists>nonspace. find_first_not_of r (CHR '' '') (spacepos + 1) = Some nonspace \<and>
      spacepos < nonspace \<and> nonspace < length r"
    using s(2) b spacepos by simp
  then show "\<exists>nonspace.
      find_first_not_of (trim (substr contents 1 (length contents - 2))) (CHR '' '') (spacepos + 1)
        = Some nonspace \<and>
      spacepos < nonspace \<and> nonspace < length (trim (substr contents 1 (length contents - 2)))"
    by (simp only: r_def)
next
  show "parseSetDelimiterTag contents delimiterSet \<noteq> Inl AssertionFailed"
    by (simp add: parseSetDelimiterTag_spec)
qed

text \<open>The tag \<^verbatim>\<open>=<%  %>=\<close>, with two spaces: the space is found at 2, the next character that is not one at 4.\<close>

theorem set_delimiter_search_succeeds_witness:
  "5 \<le> length ''=<%  %>='' \<and> last ''=<%  %>='' = CHR ''='' \<and>
   find_char (trim (substr ''=<%  %>='' 1 (length ''=<%  %>='' - 2))) (CHR '' '') = Some 2 \<and>
   (\<exists>nonspace.
      find_first_not_of (trim (substr ''=<%  %>='' 1 (length ''=<%  %>='' - 2))) (CHR '' '') (2 + 1)
        = Some nonspace \<and> 2 < nonspace \<and>
      nonspace < length (trim (substr ''=<%  %>='' 1 (length ''=<%  %>='' - 2)))) \<and>
   parseSetDelimiterTag ''=<%  %>='' reset \<noteq> Inl AssertionFailed"
proof -
  have h: "5 \<le> length ''=<%  %>='' \<and> last ''=<%  %>='' = CHR ''='' \<and>
    find_char (trim (substr ''=<%  %>='' 1 (length ''=<%  %>='' - 2))) (CHR '' '') = Some 2"
    by (simp add: string_eval)
  from set_delimiter_search_succeeds [of "''=<%  %>=''" 2 reset] h
  show ?thesis by blast
qed

section \<open>Which set-delimiter tags are accepted\<close>

text \<open>
  Claim C8. Take a run of the loop body of \<^verbatim>\<open>parse\<close> that finds a tag at \<open>ts\<close> whose trimmed
  contents begin with an equals sign. \<^verbatim>\<open>parseSetDelimiterTag\<close> accepts the contents exactly
  when the specification's conditions hold (\<open>set_delimiter_accepted\<close>), and then returns the
  two markers the specification describes. When it accepts, the run goes on with these
  markers as the delimiters of the context; when it does not, \<^verbatim>\<open>parse\<close> returns with the
  error message \<^verbatim>\<open>Invalid set delimiter tag at\<close> followed by \<open>ts\<close>, and the delimiters as they
  were.
\<close>

theorem set_delimiter_tag_accepted_iff:
  assumes "str_find input (delim_begin (ctx_delimiterSet st)) (inputPosition st) = Some ts"
    and "tagIsUnescapedVar input st ts (ts + length (delim_begin (ctx_delimiterSet st))) = Inr u"
    and "tcl = (if u then ts + length (delim_begin (ctx_delimiterSet st)) + 1
                else ts + length (delim_begin (ctx_delimiterSet st)))"
    and "str_find input (if u then ''}}}'' else delim_end (ctx_delimiterSet st)) tcl = Some te"
    and "contents = trim (substr input tcl (te - tcl))"
    and "contents \<noteq> []" and "hd contents = CHR ''=''"
  shows "parseSetDelimiterTag contents (ctx_delimiterSet st) =
           (if set_delimiter_accepted contents
            then Inr (True, \<lparr>delim_begin = new_begin_marker (set_delimiter_interior contents),
                              delim_end = new_end_marker (set_delimiter_interior contents)\<rparr>)
            else Inr (False, ctx_delimiterSet st))
         \<and> (if set_delimiter_accepted contents
            then \<exists>st'. parse_step input st = Iterated st' \<and>
                   ctx_delimiterSet st' =
                     \<lparr>delim_begin = new_begin_marker (set_delimiter_interior contents),
                      delim_end = new_end_marker (set_delimiter_interior contents)\<rparr> \<and>
                   currentDelimiterIsBrace st' = isDefault (ctx_delimiterSet st') \<and>
                   ps_errorMessage st' = ps_errorMessage st
            else \<exists>st'. parse_step input st = Returned st' \<and>
                   ps_errorMessage st' = ''Invalid set delimiter tag at '' @ show_nat ts \<and>
                   ctx_delimiterSet st' = ctx_delimiterSet st)"
  using assms
  by (simp add: parse_step_def parse_tag_def parseSetDelimiterTag_spec Let_def push_or_pop_def
      isSectionBegin_def isSectionEnd_def new_Tag_def add_child_def)

text \<open>The input \<^verbatim>\<open>{{=<% %>=}}\<close>: the tag is accepted and the delimiters are \<^verbatim>\<open><%\<close> and \<^verbatim>\<open>%>\<close>.\<close>

theorem set_delimiter_tag_accepted_iff_witness:
  "set_delimiter_accepted ''=<% %>='' \<and>
   parseSetDelimiterTag ''=<% %>='' reset = Inr (True, \<lparr>delim_begin = ''<%'', delim_end = ''%>''\<rparr>) \<and>
   (\<exists>st'. parse_step ''{{=<% %>=}}'' (new_ParseState reset) = Iterated st' \<and>
      ctx_delimiterSet st' = \<lparr>delim_begin = ''<%'', delim_end = ''%>''\<rparr> \<and>
      currentDelimiterIsBrace st' = False)"
proof -
  let ?input = "''{{=<% %>=}}''"
  let ?st = "new_ParseState reset"
  have d: "ctx_delimiterSet ?st = reset" by (simp add: new_ParseState_def)
  have 1: "str_find ?input (delim_begin (ctx_delimiterSet ?st)) (inputPosition ?st) = Some 0"
    by (simp add: new_ParseState_def string_eval delimiter_eval)
  have 2: "tagIsUnescapedVar ?input ?st 0 (0 + length (delim_begin (ctx_delimiterSet ?st))) = Inr False"
    by (simp add: new_ParseState_def tagIsUnescapedVar_def size_sub_def delimiter_eval)
  have 3: "2 = (if False then 0 + length (delim_begin (ctx_delimiterSet ?st)) + 1
                else 0 + length (delim_begin (ctx_delimiterSet ?st)))"
    by (simp add: new_ParseState_def delimiter_eval)
  have 4: "str_find ?input (if False then ''}}}'' else delim_end (ctx_delimiterSet ?st)) 2 = Some 9"
    by (simp add: new_ParseState_def string_eval delimiter_eval)
  have 5: "''=<% %>='' = trim (substr ?input 2 (9 - 2))"
    by (simp add: string_eval)
  have acc: "set_delimiter_accepted ''=<% %>=''"
    by (simp add: set_delimiter_spec_eval string_eval)
  have int: "set_delimiter_interior ''=<% %>='' = ''<% %>''"
    by (simp add: set_delimiter_spec_eval string_eval)
  have m: "new_begin_marker ''<% %>'' = ''<%''" "new_end_marker ''<% %>'' = ''%>''"
    by (simp_all add: new_begin_marker_def new_end_marker_def)
  from set_delimiter_tag_accepted_iff [OF 1 2 3 4 5] acc
  have "parseSetDelimiterTag ''=<% %>='' reset =
          Inr (True, \<lparr>delim_begin = ''<%'', delim_end = ''%>''\<rparr>) \<and>
        (\<exists>st'. parse_step ?input ?st = Iterated st' \<and>
           ctx_delimiterSet st' = \<lparr>delim_begin = ''<%'', delim_end = ''%>''\<rparr> \<and>
           currentDelimiterIsBrace st' = isDefault (ctx_delimiterSet st') \<and>
           ps_errorMessage st' = ps_errorMessage ?st)"
    by (simp add: d int m)
  then show ?thesis
    using acc by (auto simp: isDefault_def defaultBegin_def)
qed

section \<open>One run of the parser's loop\<close>

lemma find_in_Some:
  "find_in needle xs i = Some j \<Longrightarrow>
     \<exists>k. j = i + k \<and> k + length needle \<le> length xs \<and> prefix needle (drop k xs)"
proof (induction xs arbitrary: i)
  case Nil
  then show ?case by (simp split: if_splits)
next
  case (Cons c cs)
  show ?case
  proof (cases "prefix needle (c # cs)")
    case True
    with Cons.prems have "j = i + 0" by simp
    moreover have "0 + length needle \<le> length (c # cs)"
      using prefix_length_le [OF True] by simp
    moreover have "prefix needle (drop 0 (c # cs))" using True by simp
    ultimately show ?thesis by blast
  next
    case False
    with Cons.prems have "find_in needle cs (Suc i) = Some j" by simp
    from Cons.IH [OF this] obtain k where
      k: "j = Suc i + k" "k + length needle \<le> length cs" "prefix needle (drop k cs)"
      by blast
    have "j = i + Suc k" using k(1) by simp
    moreover have "Suc k + length needle \<le> length (c # cs)" using k(2) by simp
    moreover have "prefix needle (drop (Suc k) (c # cs))" using k(3) by simp
    ultimately show ?thesis by blast
  qed
qed

lemma str_find_Some:
  assumes "str_find s needle pos = Some i"
  shows "pos \<le> i" and "i + length needle \<le> length s" and "prefix needle (drop i s)"
proof -
  from assms have le: "pos \<le> length s" and f: "find_in needle (drop pos s) pos = Some i"
    by (auto simp: str_find_def split: if_splits)
  from find_in_Some [OF f] obtain k where
    k: "i = pos + k" "k + length needle \<le> length (drop pos s)"
       "prefix needle (drop k (drop pos s))"
    by blast
  show "pos \<le> i" using k(1) by simp
  show "i + length needle \<le> length s" using k(1,2) le by simp
  show "prefix needle (drop i s)" using k(1,3) by (simp add: add.commute)
qed

lemma size_sub_eq:
  assumes "b \<le> a" and "a < 18446744073709551616"
  shows "size_sub a b = a - b"
proof -
  have "a + 18446744073709551616 - b = (a - b) + 18446744073709551616"
    using assms(1) by arith
  then have "size_sub a b = ((a - b) + 18446744073709551616) mod 18446744073709551616"
    by (simp only: size_sub_def)
  also have "\<dots> = (a - b) mod 18446744073709551616" by (rule mod_add_self2)
  also have "\<dots> = a - b" using assms(2) by simp
  finally show ?thesis .
qed

lemma tagIsUnescapedVar_eq:
  assumes "currentDelimiterIsBrace st = isDefault (ctx_delimiterSet st)"
    and "str_find input (delim_begin (ctx_delimiterSet st)) (inputPosition st) = Some ts"
    and "length input < 18446744073709551616"
  shows "tagIsUnescapedVar input st ts (ts + length (delim_begin (ctx_delimiterSet st))) =
           Inr (isDefault (ctx_delimiterSet st) \<and> ts + 2 \<noteq> length input \<and>
                input ! (ts + 2) = CHR ''{'')"
proof (cases "isDefault (ctx_delimiterSet st)")
  case False
  then show ?thesis using assms(1) by (simp add: tagIsUnescapedVar_def)
next
  case True
  then have b: "delim_begin (ctx_delimiterSet st) = ''{{''"
    by (simp add: isDefault_def defaultBegin_def)
  from str_find_Some(2) [OF assms(2)] have le: "ts + 2 \<le> length input" by (simp add: b)
  then have sub: "size_sub (length input) 2 = length input - 2"
    using assms(3) by (intro size_sub_eq) simp_all
  show ?thesis
    using True assms(1) le by (auto simp: tagIsUnescapedVar_def sub b)
qed

text \<open>
  What one run of the loop body changes, when the loop goes on: the scan position moves
  behind the tag, and the delimiters change at a set-delimiter tag only, together with the
  flag that says whether they are the default ones.
\<close>

lemma push_or_pop_frame:
  assumes "push_or_pop input ts cmp st = Iterated st'"
  shows "inputPosition st' = inputPosition st \<and> ctx_delimiterSet st' = ctx_delimiterSet st \<and>
         currentDelimiterIsBrace st' = currentDelimiterIsBrace st"
  using assms by (auto simp: push_or_pop_def split: if_splits)

lemma parseSetDelimiterTag_nonempty:
  assumes "parseSetDelimiterTag contents d = Inr (True, d')"
  shows "delim_begin d' \<noteq> [] \<and> delim_end d' \<noteq> []"
  using assms
  by (auto simp: parseSetDelimiterTag_spec set_delimiter_accepted_def legal_marker_def
      split: if_splits)

lemma parse_tag_frame:
  assumes "parse_tag input ts tcl te u endSize st = Iterated st'"
  shows "inputPosition st' = te + endSize"
    and "currentDelimiterIsBrace st = isDefault (ctx_delimiterSet st) \<Longrightarrow>
         currentDelimiterIsBrace st' = isDefault (ctx_delimiterSet st')"
    and "delimiters_nonempty st \<Longrightarrow> delimiters_nonempty st'"
proof -
  let ?contents = "trim (substr input tcl (te - tcl))"
  have "inputPosition st' = te + endSize \<and>
      (currentDelimiterIsBrace st = isDefault (ctx_delimiterSet st) \<longrightarrow>
         currentDelimiterIsBrace st' = isDefault (ctx_delimiterSet st')) \<and>
      (delimiters_nonempty st \<longrightarrow> delimiters_nonempty st')"
  proof (cases "?contents \<noteq> [] \<and> hd ?contents = CHR ''=''")
    case True
    let ?cmp = "\<lambda>d. Component [] (new_Tag\<lparr>tag_type := SetDelimiter, tag_delimiterSet := Some d\<rparr>) [] ts"
    from True assms obtain d where
      d: "parseSetDelimiterTag ?contents (ctx_delimiterSet st) = Inr (True, d)"
      and p: "push_or_pop input ts (?cmp d)
          ((add_child (?cmp d) (st\<lparr>ctx_delimiterSet := d, currentDelimiterIsBrace := isDefault d\<rparr>))
             \<lparr>inputPosition := te + endSize\<rparr>) = Iterated st'"
      by (auto simp: parse_tag_def Let_def split: sum.splits prod.splits if_splits)
    from push_or_pop_frame [OF p] parseSetDelimiterTag_nonempty [OF d]
    show ?thesis by (simp add: add_child_def delimiters_nonempty_def)
  next
    case False
    let ?cmp = "Component [] (parseTagContents u ?contents new_Tag) [] ts"
    from False assms have p: "push_or_pop input ts ?cmp
          ((add_child ?cmp st)\<lparr>inputPosition := te + endSize\<rparr>) = Iterated st'"
      by (auto simp: parse_tag_def Let_def)
    from push_or_pop_frame [OF p]
    show ?thesis by (simp add: add_child_def delimiters_nonempty_def)
  qed
  then show "inputPosition st' = te + endSize"
    and "currentDelimiterIsBrace st = isDefault (ctx_delimiterSet st) \<Longrightarrow>
         currentDelimiterIsBrace st' = isDefault (ctx_delimiterSet st')"
    and "delimiters_nonempty st \<Longrightarrow> delimiters_nonempty st'"
    by simp_all
qed

text \<open>A run of the loop body that goes on went through \<open>parse_tag\<close>, for a tag found further on.\<close>

lemma parse_step_Iterated:
  assumes "parse_step input st = Iterated st'"
  obtains ts u te where
    "str_find input (delim_begin (ctx_delimiterSet st)) (inputPosition st) = Some ts"
    and "tagIsUnescapedVar input st ts (ts + length (delim_begin (ctx_delimiterSet st))) = Inr u"
    and "str_find input (if u then ''}}}'' else delim_end (ctx_delimiterSet st))
           (if u then ts + length (delim_begin (ctx_delimiterSet st)) + 1
            else ts + length (delim_begin (ctx_delimiterSet st))) = Some te"
    and "parse_tag input ts
           (if u then ts + length (delim_begin (ctx_delimiterSet st)) + 1
            else ts + length (delim_begin (ctx_delimiterSet st)))
           te u (length (if u then ''}}}'' else delim_end (ctx_delimiterSet st)))
           (if ts \<noteq> inputPosition st
            then add_child (text_Component (substr input (inputPosition st) (ts - inputPosition st))
                   (inputPosition st)) st
            else st) = Iterated st'"
proof -
  let ?b = "delim_begin (ctx_delimiterSet st)"
  from assms obtain ts where ts: "str_find input ?b (inputPosition st) = Some ts"
    by (auto simp: parse_step_def split: option.splits)
  from assms ts obtain u where u: "tagIsUnescapedVar input st ts (ts + length ?b) = Inr u"
    by (auto simp: parse_step_def Let_def split: sum.splits)
  from assms ts u obtain te where
    "str_find input (if u then ''}}}'' else delim_end (ctx_delimiterSet st))
       (if u then ts + length ?b + 1 else ts + length ?b) = Some te"
    and "parse_tag input ts (if u then ts + length ?b + 1 else ts + length ?b)
           te u (length (if u then ''}}}'' else delim_end (ctx_delimiterSet st)))
           (if ts \<noteq> inputPosition st
            then add_child (text_Component (substr input (inputPosition st) (ts - inputPosition st))
                   (inputPosition st)) st
            else st) = Iterated st'"
    by (auto simp: parse_step_def Let_def split: option.splits if_splits)
  with ts u show ?thesis by (rule that)
qed

lemma parse_step_keeps_flag:
  assumes "currentDelimiterIsBrace st = isDefault (ctx_delimiterSet st)"
    and "parse_step input st = Iterated st'"
  shows "currentDelimiterIsBrace st' = isDefault (ctx_delimiterSet st')"
proof -
  from assms(2) obtain ts u te where
    pt: "parse_tag input ts
           (if u then ts + length (delim_begin (ctx_delimiterSet st)) + 1
            else ts + length (delim_begin (ctx_delimiterSet st)))
           te u (length (if u then ''}}}'' else delim_end (ctx_delimiterSet st)))
           (if ts \<noteq> inputPosition st
            then add_child (text_Component (substr input (inputPosition st) (ts - inputPosition st))
                   (inputPosition st)) st
            else st) = Iterated st'"
    by (rule parse_step_Iterated)
  show ?thesis
    by (rule parse_tag_frame(2) [OF pt]) (simp add: assms(1) add_child_def)
qed

text \<open>With delimiters that are not empty, the scan position moves on, and stays in the input.\<close>

lemma parse_step_advances:
  assumes "parse_step input st = Iterated st'"
    and "delimiters_nonempty st"
  shows "inputPosition st < inputPosition st'" and "inputPosition st' \<le> length input"
    and "delimiters_nonempty st'"
proof -
  let ?b = "delim_begin (ctx_delimiterSet st)"
  let ?e = "delim_end (ctx_delimiterSet st)"
  from assms(1) obtain ts u te where
    ts: "str_find input ?b (inputPosition st) = Some ts"
    and te: "str_find input (if u then ''}}}'' else ?e)
           (if u then ts + length ?b + 1 else ts + length ?b) = Some te"
    and pt: "parse_tag input ts (if u then ts + length ?b + 1 else ts + length ?b)
           te u (length (if u then ''}}}'' else ?e))
           (if ts \<noteq> inputPosition st
            then add_child (text_Component (substr input (inputPosition st) (ts - inputPosition st))
                   (inputPosition st)) st
            else st) = Iterated st'"
    by (rule parse_step_Iterated)
  have pos: "inputPosition st' = te + length (if u then ''}}}'' else ?e)"
    by (rule parse_tag_frame(1) [OF pt])
  show "delimiters_nonempty st'"
    by (rule parse_tag_frame(3) [OF pt])
      (use assms(2) in \<open>simp add: delimiters_nonempty_def add_child_def\<close>)
  have 1: "inputPosition st \<le> ts" by (rule str_find_Some(1) [OF ts])
  have 2: "(if u then ts + length ?b + 1 else ts + length ?b) \<le> te"
    by (rule str_find_Some(1) [OF te])
  have 3: "te + length (if u then ''}}}'' else ?e) \<le> length input"
    by (rule str_find_Some(2) [OF te])
  have 4: "0 < length (if u then ''}}}'' else ?e)"
    using assms(2) by (simp add: delimiters_nonempty_def)
  show "inputPosition st < inputPosition st'"
    using 1 2 4 unfolding pos by (cases u) (simp_all del: length_greater_0_conv)
  show "inputPosition st' \<le> length input"
    using 3 unfolding pos .
qed

text \<open>Fuel that was enough for the loop stays enough when there is more of it.\<close>

lemma parse_loop_more_fuel:
  "parse_loop n input st \<noteq> OutOfFuel \<Longrightarrow> parse_loop (n + k) input st = parse_loop n input st"
proof (induction n arbitrary: st)
  case 0
  then show ?case by (cases k) (simp_all split: if_splits)
next
  case (Suc n)
  show ?case
  proof (cases "inputPosition st = length input")
    case True
    then show ?thesis by simp
  next
    case False
    show ?thesis
    proof (cases "parse_step input st")
      case (Iterated st')
      with Suc.prems False have "parse_loop n input st' \<noteq> OutOfFuel" by simp
      from Suc.IH [OF this] Iterated False show ?thesis by simp
    qed (use False in simp_all)
  qed
qed

section \<open>The triple-mustache form\<close>

text \<open>
  Claim C5, as amended. Let the loop body of \<^verbatim>\<open>parse\<close> find a tag at \<open>ts\<close>, in a state whose flag
  \<^verbatim>\<open>currentDelimiterIsBrace\<close> says whether the delimiters are the default ones (as it does when
  \<^verbatim>\<open>parse\<close> starts, and after every run of the loop body: the last conjunct). The
  triple-mustache form is recognised exactly when the delimiters are the default ones, the
  character behind the begin delimiter is an opening brace, and the tag does not start at the
  last two bytes of the input. The end marker is then \<^verbatim>\<open>}}}\<close>: without one the parse returns
  the error \<^verbatim>\<open>Unclosed tag\<close>, and with one at \<open>te\<close> the tag is an unescaped variable whose name
  is the whole trimmed contents, unless the trimmed contents begin with an equals sign, in
  which case the tag is read as a set-delimiter tag.
\<close>

theorem triple_mustache_recognition:
  assumes "currentDelimiterIsBrace st = isDefault (ctx_delimiterSet st)"
    and "str_find input (delim_begin (ctx_delimiterSet st)) (inputPosition st) = Some ts"
    and "length input < 18446744073709551616"
    and "u = (isDefault (ctx_delimiterSet st) \<and> ts + 2 \<noteq> length input \<and>
              input ! (ts + 2) = CHR ''{'')"
    and "st1 = (if ts \<noteq> inputPosition st
                then add_child (text_Component (substr input (inputPosition st) (ts - inputPosition st))
                       (inputPosition st)) st
                else st)"
  shows "tagIsUnescapedVar input st ts (ts + length (delim_begin (ctx_delimiterSet st))) = Inr u \<and>
    (u \<and> str_find input ''}}}'' (ts + 3) = None \<longrightarrow>
       parse_step input st = Returned (st1\<lparr>ps_errorMessage := ''Unclosed tag at '' @ show_nat ts\<rparr>)) \<and>
    (u \<and> str_find input ''}}}'' (ts + 3) = Some te \<and>
     contents = trim (substr input (ts + 3) (te - (ts + 3))) \<and>
     \<not> (contents \<noteq> [] \<and> hd contents = CHR ''='') \<longrightarrow>
       parse_step input st =
         Iterated ((add_child
            (Component [] (new_Tag\<lparr>tag_type := UnescapedVariable, tag_name := contents\<rparr>) [] ts) st1)
              \<lparr>inputPosition := te + 3\<rparr>)) \<and>
    (\<forall>st'. parse_step input st = Iterated st' \<longrightarrow>
       currentDelimiterIsBrace st' = isDefault (ctx_delimiterSet st')) \<and>
    currentDelimiterIsBrace (new_ParseState d) = isDefault (ctx_delimiterSet (new_ParseState d))"
proof (intro conjI impI allI)
  show "currentDelimiterIsBrace (new_ParseState d) = isDefault (ctx_delimiterSet (new_ParseState d))"
    by (simp add: new_ParseState_def)
next
  have t: "tagIsUnescapedVar input st ts (ts + length (delim_begin (ctx_delimiterSet st))) = Inr u"
    using tagIsUnescapedVar_eq [OF assms(1,2,3)] assms(4) by simp
  then show "tagIsUnescapedVar input st ts (ts + length (delim_begin (ctx_delimiterSet st))) = Inr u" .
  {
    assume a: "u \<and> str_find input ''}}}'' (ts + 3) = None"
    then have b: "delim_begin (ctx_delimiterSet st) = ''{{''"
      using assms(4) by (simp add: isDefault_def defaultBegin_def)
    show "parse_step input st = Returned (st1\<lparr>ps_errorMessage := ''Unclosed tag at '' @ show_nat ts\<rparr>)"
      using a t assms(2,5) by (simp add: parse_step_def b Let_def numeral_3_eq_3)
  }
  {
    assume a: "u \<and> str_find input ''}}}'' (ts + 3) = Some te \<and>
      contents = trim (substr input (ts + 3) (te - (ts + 3))) \<and>
      \<not> (contents \<noteq> [] \<and> hd contents = CHR ''='')"
    then have b: "delim_begin (ctx_delimiterSet st) = ''{{''"
      using assms(4) by (simp add: isDefault_def defaultBegin_def)
    show "parse_step input st =
         Iterated ((add_child
            (Component [] (new_Tag\<lparr>tag_type := UnescapedVariable, tag_name := contents\<rparr>) [] ts) st1)
              \<lparr>inputPosition := te + 3\<rparr>)"
      using a t assms(2,5)
      by (auto simp: parse_step_def b Let_def numeral_3_eq_3 parse_tag_def parseTagContents_def
          push_or_pop_def isSectionBegin_def isSectionEnd_def)
  }
  {
    fix st' assume "parse_step input st = Iterated st'"
    then show "currentDelimiterIsBrace st' = isDefault (ctx_delimiterSet st')"
      by (rule parse_step_keeps_flag [OF assms(1)])
  }
qed

text \<open>The input \<^verbatim>\<open>{{{ x }}}\<close>: an unescaped variable named \<^verbatim>\<open>x\<close>, and the scan goes on at 9.\<close>

theorem triple_mustache_recognition_witness:
  "tagIsUnescapedVar ''{{{ x }}}'' (new_ParseState reset) 0 2 = Inr True \<and>
   parse_step ''{{{ x }}}'' (new_ParseState reset) =
     Iterated ((add_child
        (Component [] (new_Tag\<lparr>tag_type := UnescapedVariable, tag_name := ''x''\<rparr>) [] 0)
        (new_ParseState reset))\<lparr>inputPosition := 9\<rparr>)"
proof -
  let ?input = "''{{{ x }}}''"
  let ?st = "new_ParseState reset"
  have 1: "currentDelimiterIsBrace ?st = isDefault (ctx_delimiterSet ?st)"
    by (simp add: new_ParseState_def)
  have 2: "str_find ?input (delim_begin (ctx_delimiterSet ?st)) (inputPosition ?st) = Some 0"
    by (simp add: new_ParseState_def string_eval delimiter_eval)
  have 3: "length ?input < 18446744073709551616" by simp
  have 4: "True = (isDefault (ctx_delimiterSet ?st) \<and> 0 + 2 \<noteq> length ?input \<and>
              ?input ! (0 + 2) = CHR ''{'')"
    by (simp add: new_ParseState_def delimiter_eval)
  have 5: "?st = (if 0 \<noteq> inputPosition ?st
                then add_child (text_Component (substr ?input (inputPosition ?st) (0 - inputPosition ?st))
                       (inputPosition ?st)) ?st
                else ?st)"
    by (simp add: new_ParseState_def)
  have 6: "str_find ?input ''}}}'' (0 + 3) = Some 6"
    by (simp add: string_eval)
  have 7: "trim (substr ?input (0 + 3) (6 - (0 + 3))) = ''x''"
    by (simp add: string_eval)
  have 8: "True \<and> str_find ?input ''}}}'' (0 + 3) = Some 6 \<and>
      ''x'' = trim (substr ?input (0 + 3) (6 - (0 + 3))) \<and>
      \<not> (''x'' \<noteq> [] \<and> hd ''x'' = CHR ''='')"
    using 6 7 by simp
  note t = triple_mustache_recognition [OF 1 2 3 4 5, of 6 "''x''"]
  have l: "0 + length (delim_begin (ctx_delimiterSet ?st)) = 2"
    by (simp add: new_ParseState_def reset_def defaultBegin_def)
  from t have a: "tagIsUnescapedVar ?input ?st 0
      (0 + length (delim_begin (ctx_delimiterSet ?st))) = Inr True"
    by (rule conjunct1)
  from t 8 have b: "parse_step ?input ?st =
     Iterated ((add_child
        (Component [] (new_Tag\<lparr>tag_type := UnescapedVariable, tag_name := ''x''\<rparr>) [] 0)
        ?st)\<lparr>inputPosition := 6 + 3\<rparr>)"
    by blast
  show ?thesis using a b by (simp only: l) simp
qed

text \<open>
  Against claim C5 as it was stated: in \<^verbatim>\<open>{{{=a b=}}}\<close> the triple-mustache form is recognised,
  and the tag is a set-delimiter tag, not an unescaped variable.
\<close>

theorem triple_mustache_set_delimiter:
  "tagIsUnescapedVar ''{{{=a b=}}}'' (new_ParseState reset) 0 2 = Inr True \<and>
   BasicMustache (Suc (Suc 0)) ''{{{=a b=}}}'' =
     Done \<lparr>errorMessage = [],
           rootComponent =
             Component [] new_Tag
               [Component []
                  \<lparr>tag_name = [], tag_type = SetDelimiter, sectionText = None,
                   tag_delimiterSet = Some \<lparr>delim_begin = ''a'', delim_end = ''b''\<rparr>\<rparr>
                  [] 0]
               npos\<rparr>"
  by (simp add: parse_eval tree_eval string_eval delimiter_eval)

section \<open>Parse errors\<close>

text \<open>
  Claim C7. Compiling \<^verbatim>\<open>abc{{unterminated\<close> gives the error message \<^verbatim>\<open>Unclosed tag at 3\<close>;
  compiling \<^verbatim>\<open>{{#a}}x\<close> gives \<^verbatim>\<open>Unclosed section "a" at 0\<close>; compiling \<^verbatim>\<open>{{/a}}\<close> gives
  \<^verbatim>\<open>Unopened section "a" at 0\<close>. The offsets are those of the start of the offending tag,
  and in each case the template is not valid. This holds with any fuel from one run of
  the loop on (two for the second input): the parse stops at the first error. So
  \<^verbatim>\<open>{{/a}}{{/b}}\<close> gives the message of \<^verbatim>\<open>{{/a}}\<close>, after one run of the loop. The offset is that
  of the tag, not the number of open sections or the depth in the tree: \<^verbatim>\<open>abc{{/a}}\<close> gives
  \<^verbatim>\<open>Unopened section "a" at 3\<close>, \<^verbatim>\<open>xy{{#a}}z\<close> gives \<^verbatim>\<open>Unclosed section "a" at 2\<close>, and
  \<^verbatim>\<open>{{#b}}xy{{#a}}z{{/b}}{{/b}}\<close>, where the first \<^verbatim>\<open>{{/b}}\<close> closes the section \<^verbatim>\<open>a\<close>, gives
  \<^verbatim>\<open>Unclosed section "a" at 8\<close>. The walk that checks the sections stops at the first one that is
  not closed: \<^verbatim>\<open>{{#p}}{{#a}}x{{/b}}{{#c}}y{{/d}}{{/p}}\<close> gives \<^verbatim>\<open>Unclosed section "a" at 6\<close>, and
  nothing about the section \<^verbatim>\<open>c\<close>.
\<close>

theorem parse_error_messages:
  "(\<exists>tmpl. BasicMustache (Suc fuel) ''abc{{unterminated'' = Done tmpl \<and>
      errorMessage tmpl = ''Unclosed tag at 3'' \<and> \<not> isValid tmpl) \<and>
   (\<exists>tmpl. BasicMustache (Suc (Suc fuel)) ''{{#a}}x'' = Done tmpl \<and>
      errorMessage tmpl = ''Unclosed section '' @ [CHR 0x22] @ ''a'' @ [CHR 0x22] @ '' at 0'' \<and>
      \<not> isValid tmpl) \<and>
   (\<exists>tmpl. BasicMustache (Suc fuel) ''{{/a}}'' = Done tmpl \<and>
      errorMessage tmpl = ''Unopened section '' @ [CHR 0x22] @ ''a'' @ [CHR 0x22] @ '' at 0'' \<and>
      \<not> isValid tmpl) \<and>
   (\<exists>tmpl. BasicMustache (Suc fuel) ''{{/a}}{{/b}}'' = Done tmpl \<and>
      errorMessage tmpl = ''Unopened section '' @ [CHR 0x22] @ ''a'' @ [CHR 0x22] @ '' at 0'' \<and>
      \<not> isValid tmpl) \<and>
   (\<exists>tmpl. BasicMustache (Suc fuel) ''abc{{/a}}'' = Done tmpl \<and>
      errorMessage tmpl = ''Unopened section '' @ [CHR 0x22] @ ''a'' @ [CHR 0x22] @ '' at 3'' \<and>
      \<not> isValid tmpl) \<and>
   (\<exists>tmpl. BasicMustache (Suc (Suc fuel)) ''xy{{#a}}z'' = Done tmpl \<and>
      errorMessage tmpl = ''Unclosed section '' @ [CHR 0x22] @ ''a'' @ [CHR 0x22] @ '' at 2'' \<and>
      \<not> isValid tmpl) \<and>
   (\<exists>tmpl. BasicMustache (Suc (Suc (Suc (Suc (Suc fuel))))) ''{{#b}}xy{{#a}}z{{/b}}{{/b}}'' = Done tmpl \<and>
      errorMessage tmpl = ''Unclosed section '' @ [CHR 0x22] @ ''a'' @ [CHR 0x22] @ '' at 8'' \<and>
      \<not> isValid tmpl) \<and>
   (\<exists>tmpl. BasicMustache (Suc (Suc (Suc (Suc (Suc (Suc fuel))))))
              ''{{#p}}{{#a}}x{{/b}}{{#c}}y{{/d}}{{/p}}'' = Done tmpl \<and>
      errorMessage tmpl = ''Unclosed section '' @ [CHR 0x22] @ ''a'' @ [CHR 0x22] @ '' at 6'' \<and>
      \<not> isValid tmpl)"
proof (intro conjI)
  show "\<exists>tmpl. BasicMustache (Suc fuel) ''abc{{unterminated'' = Done tmpl \<and>
      errorMessage tmpl = ''Unclosed tag at 3'' \<and> \<not> isValid tmpl"
    by (simp add: parse_eval tree_eval string_eval delimiter_eval)
  show "\<exists>tmpl. BasicMustache (Suc (Suc fuel)) ''{{#a}}x'' = Done tmpl \<and>
      errorMessage tmpl = ''Unclosed section '' @ [CHR 0x22] @ ''a'' @ [CHR 0x22] @ '' at 0'' \<and>
      \<not> isValid tmpl"
    by (simp add: parse_eval tree_eval string_eval delimiter_eval)
  show "\<exists>tmpl. BasicMustache (Suc fuel) ''{{/a}}'' = Done tmpl \<and>
      errorMessage tmpl = ''Unopened section '' @ [CHR 0x22] @ ''a'' @ [CHR 0x22] @ '' at 0'' \<and>
      \<not> isValid tmpl"
    by (simp add: parse_eval tree_eval string_eval delimiter_eval)
  show "\<exists>tmpl. BasicMustache (Suc fuel) ''{{/a}}{{/b}}'' = Done tmpl \<and>
      errorMessage tmpl = ''Unopened section '' @ [CHR 0x22] @ ''a'' @ [CHR 0x22] @ '' at 0'' \<and>
      \<not> isValid tmpl"
    by (simp add: parse_eval tree_eval string_eval delimiter_eval)
  show "\<exists>tmpl. BasicMustache (Suc fuel) ''abc{{/a}}'' = Done tmpl \<and>
      errorMessage tmpl = ''Unopened section '' @ [CHR 0x22] @ ''a'' @ [CHR 0x22] @ '' at 3'' \<and>
      \<not> isValid tmpl"
    by (simp add: parse_eval tree_eval string_eval delimiter_eval parse_loop_at_end)
  show "\<exists>tmpl. BasicMustache (Suc (Suc fuel)) ''xy{{#a}}z'' = Done tmpl \<and>
      errorMessage tmpl = ''Unclosed section '' @ [CHR 0x22] @ ''a'' @ [CHR 0x22] @ '' at 2'' \<and>
      \<not> isValid tmpl"
    by (simp add: parse_eval tree_eval string_eval delimiter_eval parse_loop_at_end)
  show "\<exists>tmpl. BasicMustache (Suc (Suc (Suc (Suc (Suc fuel))))) ''{{#b}}xy{{#a}}z{{/b}}{{/b}}'' = Done tmpl \<and>
      errorMessage tmpl = ''Unclosed section '' @ [CHR 0x22] @ ''a'' @ [CHR 0x22] @ '' at 8'' \<and>
      \<not> isValid tmpl"
    by (simp add: parse_eval tree_eval string_eval delimiter_eval parse_loop_at_end)
  show "\<exists>tmpl. BasicMustache (Suc (Suc (Suc (Suc (Suc (Suc fuel))))))
              ''{{#p}}{{#a}}x{{/b}}{{#c}}y{{/d}}{{/p}}'' = Done tmpl \<and>
      errorMessage tmpl = ''Unclosed section '' @ [CHR 0x22] @ ''a'' @ [CHR 0x22] @ '' at 6'' \<and>
      \<not> isValid tmpl"
    by (simp add: parse_eval tree_eval string_eval delimiter_eval parse_loop_at_end)
qed

section \<open>The closing tag of a section stays in the tree\<close>

text \<open>
  Claim C3 fails on the code. The walk that ends \<^verbatim>\<open>parse\<close> removes the closing tag from a copy
  of the section's component. The template compiled from \<^verbatim>\<open>{{#a}}x{{/a}}\<close> is valid, and the
  section in its tree still has the closing tag as its last child.
\<close>

theorem section_end_is_kept:
  "BasicMustache (Suc (Suc (Suc (Suc fuel)))) ''{{#a}}x{{/a}}'' =
     Done \<lparr>errorMessage = [],
           rootComponent =
             Component [] new_Tag
               [Component []
                  \<lparr>tag_name = ''a'', tag_type = SectionBegin, sectionText = Some ''x'',
                   tag_delimiterSet = None\<rparr>
                  [Component ''x'' new_Tag [] 6,
                   Component []
                     \<lparr>tag_name = ''a'', tag_type = SectionEnd, sectionText = None,
                      tag_delimiterSet = None\<rparr> [] 7]
                  0]
               npos\<rparr>"
  by (simp add: parse_eval tree_eval string_eval delimiter_eval)

section \<open>The parser returns\<close>

text \<open>Adding a child, or setting a section text, at the end of a pointer keeps the tree shallow.\<close>

lemma shallow_Suc: "shallow n c \<Longrightarrow> shallow (Suc n) c"
proof (induction n arbitrary: c)
  case 0
  then show ?case by simp
next
  case (Suc n)
  from Suc.prems have "\<forall>x\<in>set (children c). shallow n x" by (simp add: list_all_iff)
  then have "\<forall>x\<in>set (children c). shallow (Suc n) x" using Suc.IH by blast
  then show ?case by (simp add: list_all_iff)
qed

lemma shallow_mono: "shallow n c \<Longrightarrow> n \<le> m \<Longrightarrow> shallow m c"
proof (induction m)
  case 0
  then show ?case by simp
next
  case (Suc m)
  show ?case
  proof (cases "n = Suc m")
    case True
    with Suc.prems show ?thesis by simp
  next
    case False
    with Suc.prems have "n \<le> m" by simp
    with Suc have "shallow m c" by blast
    then show ?thesis by (rule shallow_Suc)
  qed
qed

lemma list_all_list_update:
  "list_all P xs \<Longrightarrow> P y \<Longrightarrow> list_all P (xs[i := y])"
  using set_update_subset_insert [of xs i y] by (auto simp: list_all_iff)

lemma shallow_update_at:
  assumes "shallow n root" and "length p + 2 \<le> n" and "children leaf = []"
  shows "shallow n (update_at (push_back_child leaf) p root)"
  using assms(1,2)
proof (induction p arbitrary: n root)
  case Nil
  then obtain m where m: "n = Suc (Suc m)" by (metis add_2_eq_Suc le_Suc_ex list.size(3) add.left_neutral)
  with Nil.prems(1) assms(3) show ?case
    by (simp add: push_back_child_def)
next
  case (Cons i p)
  then obtain m where m: "n = Suc m" by (cases n) auto
  from Cons.prems m have all: "list_all (shallow m) (children root)" by simp
  show ?case
  proof (cases "i < length (children root)")
    case True
    with all have "shallow m (children root ! i)" by (simp add: list_all_length)
    moreover have "length p + 2 \<le> m" using Cons.prems(2) m by simp
    ultimately have "shallow m (update_at (push_back_child leaf) p (children root ! i))"
      by (rule Cons.IH)
    with all have "list_all (shallow m)
        ((children root)[i := update_at (push_back_child leaf) p (children root ! i)])"
      by (simp add: list_all_list_update)
    then show ?thesis by (simp add: m)
  next
    case False
    with all show ?thesis by (simp add: m list_update_beyond)
  qed
qed

lemma shallow_set_sectionText:
  "shallow n root \<Longrightarrow> shallow n (update_at (set_sectionText t) p root)"
proof (induction p arbitrary: n root)
  case Nil
  then show ?case by (cases n) (simp_all add: set_sectionText_def)
next
  case (Cons i p)
  then obtain m where m: "n = Suc m" by (cases n) auto
  from Cons.prems m have all: "list_all (shallow m) (children root)" by simp
  show ?case
  proof (cases "i < length (children root)")
    case True
    with all have "shallow m (children root ! i)" by (simp add: list_all_length)
    then have "shallow m (update_at (set_sectionText t) p (children root ! i))"
      by (rule Cons.IH)
    with all have "list_all (shallow m)
        ((children root)[i := update_at (set_sectionText t) p (children root ! i)])"
      by (simp add: list_all_list_update)
    then show ?thesis by (simp add: m)
  next
    case False
    with all show ?thesis by (simp add: m list_update_beyond)
  qed
qed

text \<open>The walk that checks the sections ends, on a tree that is shallow enough for the fuel.\<close>

lemma walkComponent_loop_check:
  assumes "\<forall>c\<in>set cs. \<forall>err. \<exists>r. w c err = Done r"
  shows "\<exists>r. walkComponent_loop w cs control err = Done r"
  using assms
proof (induction cs arbitrary: control err)
  case Nil
  show ?case by simp
next
  case (Cons c cs)
  from Cons.prems obtain control' err' where r: "w c err = Done (control', err')"
    by fastforce
  have "\<exists>r. walkComponent_loop w cs control' err' = Done r"
    by (rule Cons.IH) (use Cons.prems in simp)
  with r show ?case by auto
qed

lemma walkComponent_check:
  "shallow n c \<Longrightarrow> \<exists>r. walkComponent n check_section c depth err = Done r"
proof (induction n arbitrary: c depth err)
  case 0
  then show ?case by simp
next
  case (Suc n)
  have "\<exists>control c' err'. check_section c depth err = Done (control, c', err') \<and>
      set (children c') \<subseteq> set (children c)"
    by (auto simp: check_section_def pop_back_child_def dest: in_set_butlastD)
  then obtain control c' err' where cb: "check_section c depth err = Done (control, c', err')"
    and sub: "set (children c') \<subseteq> set (children c)"
    by blast
  from Suc.prems sub have "\<forall>x\<in>set (children c'). shallow n x"
    by (auto simp: list_all_iff)
  then have "\<forall>x\<in>set (children c'). \<forall>e.
      \<exists>r. walkComponent n check_section x (depth + 1) e = Done r"
    using Suc.IH by blast
  then have "\<exists>r. walkComponent_loop (\<lambda>childComp. walkComponent n check_section childComp (depth + 1))
      (children c') control err' = Done r"
    by (rule walkComponent_loop_check)
  with cb show ?case by auto
qed

lemma walkChildren_loop_check:
  assumes "\<forall>c\<in>set cs. \<forall>err. \<exists>r. w c err = Done r"
  shows "\<exists>r. walkChildren_loop w cs err = Done r"
  using assms
proof (induction cs arbitrary: err)
  case Nil
  show ?case by simp
next
  case (Cons c cs)
  from Cons.prems obtain control' err' where r: "w c err = Done (control', err')"
    by fastforce
  have "\<exists>r. walkChildren_loop w cs err' = Done r"
    by (rule Cons.IH) (use Cons.prems in simp)
  with r show ?case by auto
qed

lemma walkChildren_check:
  assumes "shallow (Suc n) root"
  shows "\<exists>r. walkChildren n check_section root err = Done r"
  unfolding walkChildren_def
proof (rule walkChildren_loop_check, intro ballI allI)
  fix c e assume "c \<in> set (children root)"
  with assms have "shallow n c" by (simp add: list_all_iff)
  then show "\<exists>r. walkComponent n check_section c 0 e = Done r"
    by (rule walkComponent_check)
qed

text \<open>One run of the loop body keeps the invariant.\<close>

lemma add_child_tree:
  assumes "shallow n (ps_rootComponent st)" and "length (last (sections st)) + 2 \<le> n"
    and "children cmp = []"
  shows "shallow n (ps_rootComponent (add_child cmp st))"
  using shallow_update_at [OF assms] by (simp add: add_child_def)

lemma push_or_pop_tree:
  assumes "push_or_pop input ts cmp st = Iterated st'"
    and "sections st \<noteq> []"
    and "list_all (\<lambda>q. length q < inputPosition st) (sections st)"
    and "shallow n (ps_rootComponent st)"
  shows "sections st' \<noteq> [] \<and> list_all (\<lambda>q. length q \<le> inputPosition st') (sections st') \<and>
         shallow n (ps_rootComponent st')"
proof (cases "isSectionBegin (comp_tag cmp)")
  case True
  from assms(2,3) have "length (last (sections st)) < inputPosition st"
    by (simp add: list_all_iff)
  moreover from assms(3) have "list_all (\<lambda>q. length q \<le> inputPosition st) (sections st)"
    by (auto simp: list_all_iff)
  ultimately show ?thesis using True assms(1,4) by (auto simp: push_or_pop_def)
next
  case False
  show ?thesis
  proof (cases "isSectionEnd (comp_tag cmp)")
    case True
    with False assms(1) have ne: "length (sections st) \<noteq> 1"
      and st': "st' = st\<lparr>
             ps_rootComponent :=
               update_at
                 (set_sectionText
                    (substr input (last (sectionStarts st)) (ts - last (sectionStarts st))))
                 (last (sections st)) (ps_rootComponent st),
             sections := butlast (sections st),
             sectionStarts := butlast (sectionStarts st)\<rparr>"
      by (auto simp: push_or_pop_def split: if_splits)
    from ne assms(2) have "butlast (sections st) \<noteq> []"
      by (cases "sections st" rule: rev_cases) auto
    moreover from assms(3) have
      "list_all (\<lambda>q. length q \<le> inputPosition st) (butlast (sections st))"
      by (auto simp: list_all_iff dest!: in_set_butlastD intro: less_imp_le)
    ultimately show ?thesis using assms(4) by (simp add: st' shallow_set_sectionText)
  next
    case False
    with \<open>\<not> isSectionBegin (comp_tag cmp)\<close> assms(1) have "st' = st"
      by (simp add: push_or_pop_def)
    moreover from assms(3) have "list_all (\<lambda>q. length q \<le> inputPosition st) (sections st)"
      by (auto simp: list_all_iff)
    ultimately show ?thesis using assms(2,4) by simp
  qed
qed

lemma finish_tree:
  assumes p: "push_or_pop input ts (Component [] t [] ts)
      ((add_child (Component [] t [] ts) st)\<lparr>inputPosition := pos\<rparr>) = Iterated st'"
    and "sections st \<noteq> []"
    and "list_all (\<lambda>q. length q < pos) (sections st)"
    and "shallow (Suc pos) (ps_rootComponent st)"
  shows "sections st' \<noteq> [] \<and> list_all (\<lambda>q. length q \<le> inputPosition st') (sections st') \<and>
         shallow (Suc pos) (ps_rootComponent st')"
proof (rule push_or_pop_tree [OF p])
  show "sections ((add_child (Component [] t [] ts) st)\<lparr>inputPosition := pos\<rparr>) \<noteq> []"
    using assms(2) by (simp add: add_child_def)
  show "list_all (\<lambda>q. length q
      < inputPosition ((add_child (Component [] t [] ts) st)\<lparr>inputPosition := pos\<rparr>))
      (sections ((add_child (Component [] t [] ts) st)\<lparr>inputPosition := pos\<rparr>))"
    using assms(3) by (simp add: add_child_def)
  from assms(2,3) have "length (last (sections st)) + 2 \<le> Suc pos"
    by (simp add: list_all_iff Suc_le_eq)
  from add_child_tree [OF assms(4) this, of "Component [] t [] ts"]
  show "shallow (Suc pos)
      (ps_rootComponent ((add_child (Component [] t [] ts) st)\<lparr>inputPosition := pos\<rparr>))"
    by simp
qed

lemma parse_tag_tree:
  assumes "parse_tag input ts tcl te u endSize st = Iterated st'"
    and "sections st \<noteq> []"
    and "list_all (\<lambda>q. length q < te + endSize) (sections st)"
    and "shallow (Suc (te + endSize)) (ps_rootComponent st)"
  shows "sections st' \<noteq> [] \<and> list_all (\<lambda>q. length q \<le> inputPosition st') (sections st') \<and>
         shallow (Suc (te + endSize)) (ps_rootComponent st')"
proof -
  let ?contents = "trim (substr input tcl (te - tcl))"
  show ?thesis
  proof (cases "?contents \<noteq> [] \<and> hd ?contents = CHR ''=''")
    case True
    let ?t = "\<lambda>d. new_Tag\<lparr>tag_type := SetDelimiter, tag_delimiterSet := Some d\<rparr>"
    from True assms(1) obtain d where
      p: "push_or_pop input ts (Component [] (?t d) [] ts)
          ((add_child (Component [] (?t d) [] ts)
             (st\<lparr>ctx_delimiterSet := d, currentDelimiterIsBrace := isDefault d\<rparr>))
             \<lparr>inputPosition := te + endSize\<rparr>) = Iterated st'"
      by (auto simp: parse_tag_def Let_def split: sum.splits prod.splits if_splits)
    show ?thesis
      by (rule finish_tree [OF p]) (use assms(2-4) in simp_all)
  next
    case False
    from False assms(1) have p: "push_or_pop input ts
          (Component [] (parseTagContents u ?contents new_Tag) [] ts)
          ((add_child (Component [] (parseTagContents u ?contents new_Tag) [] ts) st)
             \<lparr>inputPosition := te + endSize\<rparr>) = Iterated st'"
      by (auto simp: parse_tag_def Let_def)
    show ?thesis
      by (rule finish_tree [OF p]) (use assms(2-4) in simp_all)
  qed
qed

lemma parse_step_inv:
  assumes inv: "parse_inv input st" and step: "parse_step input st = Iterated st'"
  shows "parse_inv input st'"
proof -
  let ?b = "delim_begin (ctx_delimiterSet st)"
  let ?e = "delim_end (ctx_delimiterSet st)"
  let ?txt = "\<lambda>ts. text_Component (substr input (inputPosition st) (ts - inputPosition st))
                   (inputPosition st)"
  from inv have d: "delimiters_nonempty st"
    and fl: "currentDelimiterIsBrace st = isDefault (ctx_delimiterSet st)"
    and ne: "sections st \<noteq> []"
    and paths: "list_all (\<lambda>q. length q \<le> inputPosition st) (sections st)"
    and sh: "shallow (Suc (inputPosition st)) (ps_rootComponent st)"
    by (simp_all add: parse_inv_def)
  note adv = parse_step_advances [OF step d]
  from step obtain ts u te where
    pt: "parse_tag input ts (if u then ts + length ?b + 1 else ts + length ?b)
           te u (length (if u then ''}}}'' else ?e))
           (if ts \<noteq> inputPosition st then add_child (?txt ts) st else st) = Iterated st'"
    by (rule parse_step_Iterated)
  define pos where "pos = te + length (if u then ''}}}'' else ?e)"
  have pos: "inputPosition st' = pos"
    unfolding pos_def by (rule parse_tag_frame(1) [OF pt])
  from adv(1) pos have lt: "inputPosition st < pos" by simp
  define st1 where "st1 = (if ts \<noteq> inputPosition st then add_child (?txt ts) st else st)"
  have s1: "sections st1 = sections st" by (simp add: st1_def add_child_def)
  have sh': "shallow (Suc pos) (ps_rootComponent st)"
    by (rule shallow_mono [OF sh]) (use lt in simp)
  from paths lt have paths': "list_all (\<lambda>q. length q < pos) (sections st)"
    by (auto simp: list_all_iff)
  with ne have "length (last (sections st)) + 2 \<le> Suc pos"
    by (simp add: list_all_iff Suc_le_eq)
  from add_child_tree [OF sh' this, of "?txt ts"] sh'
  have sh1: "shallow (Suc pos) (ps_rootComponent st1)"
    by (simp add: st1_def text_Component_def)
  from pt have pt': "parse_tag input ts (if u then ts + length ?b + 1 else ts + length ?b)
           te u (length (if u then ''}}}'' else ?e)) st1 = Iterated st'"
    by (simp only: st1_def)
  have a1: "sections st1 \<noteq> []" using ne by (simp add: s1)
  have a2: "list_all (\<lambda>q. length q < te + length (if u then ''}}}'' else ?e)) (sections st1)"
    using paths' by (simp add: s1 pos_def)
  have a3: "shallow (Suc (te + length (if u then ''}}}'' else ?e))) (ps_rootComponent st1)"
    using sh1 by (simp add: pos_def del: shallow.simps)
  have "sections st' \<noteq> [] \<and> list_all (\<lambda>q. length q \<le> inputPosition st') (sections st') \<and>
      shallow (Suc (te + length (if u then ''}}}'' else ?e))) (ps_rootComponent st')"
    by (rule parse_tag_tree [OF pt' a1 a2 a3])
  then have "sections st' \<noteq> [] \<and> list_all (\<lambda>q. length q \<le> inputPosition st') (sections st') \<and>
      shallow (Suc (inputPosition st')) (ps_rootComponent st')"
    by (simp add: pos pos_def del: shallow.simps)
  with adv parse_step_keeps_flag [OF fl step] show ?thesis
    by (simp add: parse_inv_def)
qed

lemma push_or_pop_result:
  "push_or_pop input ts cmp st \<noteq> Thrown f \<and> push_or_pop input ts cmp st \<noteq> Broke st'"
  by (simp add: push_or_pop_def)

lemma parse_tag_result:
  "parse_tag input ts tcl te u endSize st \<noteq> Thrown f \<and>
   parse_tag input ts tcl te u endSize st \<noteq> Broke st'"
  by (simp add: parse_tag_def Let_def parseSetDelimiterTag_spec push_or_pop_result)

lemma parse_step_no_fault:
  assumes "parse_inv input st" and "length input < 18446744073709551616"
  shows "parse_step input st \<noteq> Thrown f"
proof (cases "str_find input (delim_begin (ctx_delimiterSet st)) (inputPosition st)")
  case None
  then show ?thesis by (simp add: parse_step_def)
next
  case (Some ts)
  from assms(1) have fl: "currentDelimiterIsBrace st = isDefault (ctx_delimiterSet st)"
    by (simp add: parse_inv_def)
  note u = tagIsUnescapedVar_eq [OF fl Some assms(2)]
  show ?thesis
    by (simp add: parse_step_def Some u Let_def parse_tag_result split: option.splits)
qed

lemma parse_step_Broke:
  assumes inv: "parse_inv input st" and "inputPosition st \<noteq> length input"
    and step: "parse_step input st = Broke st'"
  shows "shallow (Suc (length input)) (ps_rootComponent st')"
proof -
  let ?txt = "text_Component (substr input (inputPosition st) (length input - inputPosition st))
                (inputPosition st)"
  from step have st': "st' = add_child ?txt st"
    by (auto simp: parse_step_def Let_def parse_tag_result split: option.splits sum.splits)
  from inv assms(2) have lt: "inputPosition st < length input"
    and ne: "sections st \<noteq> []"
    and paths: "list_all (\<lambda>q. length q \<le> inputPosition st) (sections st)"
    and sh: "shallow (Suc (inputPosition st)) (ps_rootComponent st)"
    by (simp_all add: parse_inv_def)
  have sh': "shallow (Suc (length input)) (ps_rootComponent st)"
    by (rule shallow_mono [OF sh]) (use lt in simp)
  from ne have "last (sections st) \<in> set (sections st)" by simp
  with paths have "length (last (sections st)) \<le> inputPosition st" by (simp add: list_all_iff)
  with lt have "length (last (sections st)) + 2 \<le> Suc (length input)" by simp
  from add_child_tree [OF sh' this, of ?txt] show ?thesis
    by (simp add: st' text_Component_def)
qed

lemma parse_loop_total:
  assumes "length input < 18446744073709551616"
  shows "parse_inv input st \<Longrightarrow> length input - inputPosition st \<le> n \<Longrightarrow>
     \<exists>finished st'. parse_loop n input st = Done (finished, st') \<and>
       (finished \<longrightarrow> shallow (Suc (length input)) (ps_rootComponent st'))"
proof (induction n arbitrary: st)
  case 0
  then have "inputPosition st = length input" by (simp add: parse_inv_def)
  with 0 show ?case by (auto simp: parse_inv_def simp del: shallow.simps)
next
  case (Suc n)
  show ?case
  proof (cases "inputPosition st = length input")
    case True
    with Suc.prems show ?thesis by (auto simp: parse_inv_def simp del: shallow.simps)
  next
    case False
    show ?thesis
    proof (cases "parse_step input st")
      case (Thrown f)
      with parse_step_no_fault [OF Suc.prems(1) assms, where f = f] show ?thesis by simp
    next
      case (Returned st')
      with False show ?thesis by (auto simp del: shallow.simps)
    next
      case (Broke st')
      with parse_step_Broke [OF Suc.prems(1) False Broke] False show ?thesis
        by (auto simp del: shallow.simps)
    next
      case (Iterated st')
      from Suc.prems(1) have d: "delimiters_nonempty st" by (simp add: parse_inv_def)
      from parse_step_advances(1) [OF Iterated d] Suc.prems(2)
      have "length input - inputPosition st' \<le> n" by arith
      from Suc.IH [OF parse_step_inv [OF Suc.prems(1) Iterated] this] Iterated False
      show ?thesis by (auto simp del: shallow.simps)
    qed
  qed
qed

lemma new_ParseState_inv:
  "delim_begin d \<noteq> [] \<Longrightarrow> delim_end d \<noteq> [] \<Longrightarrow> parse_inv input (new_ParseState d)"
  by (simp add: parse_inv_def new_ParseState_def delimiters_nonempty_def new_Component_def)

text \<open>
  \<^verbatim>\<open>parse\<close> returns, on every input shorter than \<open>2^64\<close> characters and with delimiters
  that are not empty: its loop ends, neither \<^verbatim>\<open>at\<close> throws nor the assertion of
  \<^verbatim>\<open>parseSetDelimiterTag\<close> fails, and the walk that checks the sections ends. Fuel equal to
  the length of the input is enough, for the loop and for the walk.
\<close>

theorem parse_total:
  "delim_begin d \<noteq> [] \<and> delim_end d \<noteq> [] \<and> length input < 18446744073709551616 \<and>
   length input \<le> fuel \<longrightarrow> (\<exists>tmpl d'. parse fuel input d = Done (tmpl, d'))"
proof
  assume a: "delim_begin d \<noteq> [] \<and> delim_end d \<noteq> [] \<and> length input < 18446744073709551616 \<and>
    length input \<le> fuel"
  then have inv: "parse_inv input (new_ParseState d)" by (simp add: new_ParseState_inv)
  from a have "length input - inputPosition (new_ParseState d) \<le> fuel"
    by (simp add: new_ParseState_def)
  from parse_loop_total [OF _ inv this] a obtain finished st where
    l: "parse_loop fuel input (new_ParseState d) = Done (finished, st)"
    and sh: "finished \<longrightarrow> shallow (Suc (length input)) (ps_rootComponent st)"
    by blast
  show "\<exists>tmpl d'. parse fuel input d = Done (tmpl, d')"
  proof (cases finished)
    case False
    with l show ?thesis by (simp add: parse_def)
  next
    case True
    with sh have "shallow (Suc (length input)) (ps_rootComponent st)" by blast
    then have "shallow (Suc fuel) (ps_rootComponent st)"
      by (rule shallow_mono) (use a in simp)
    from walkChildren_check [OF this, of "ps_errorMessage st"] obtain err where
      "walkChildren fuel check_section (ps_rootComponent st) (ps_errorMessage st) = Done err"
      by blast
    with l True show ?thesis by (simp add: parse_def)
  qed
qed

section \<open>The pointers to the open sections\<close>

text \<open>
  The parser writes the tree through the pointers in \<^verbatim>\<open>sections\<close>. The lemmas of this section
  say what it reads back through them, and that each run of the loop body keeps
  \<open>sections_inv\<close>.
\<close>

lemma section_texts_ok_unfold:
  "section_texts_ok input c =
     ((case sectionText (comp_tag c) of
         None \<Rightarrow> True
       | Some txt \<Rightarrow>
           isSectionBegin (comp_tag c) \<and> children c \<noteq> [] \<and>
           isSectionEnd (comp_tag (last (children c))) \<and>
           txt = substr input (position (hd (children c)))
                   (position (last (children c)) - position (hd (children c)))) \<and>
      list_all (section_texts_ok input) (children c))"
  by (cases c) (simp split: option.split)

lemma comp_tag_update_at_push:
  "comp_tag (update_at (push_back_child leaf) p c) = comp_tag c"
  by (cases p) (simp_all add: push_back_child_def)

lemma position_update_at:
  assumes "\<And>x. position (f x) = position x"
  shows "position (update_at f p c) = position c"
  by (cases p) (simp_all add: assms)

lemma position_hd_list_update:
  assumes "i < length xs" and "position y = position (xs ! i)"
  shows "position (hd (xs[i := y])) = position (hd xs)"
  using assms by (cases xs; cases i) simp_all

lemma open_sections_length: "open_sections c p ss pos \<Longrightarrow> length ss = length p"
  by (induction c p ss pos rule: open_sections.induct) simp_all

lemma get_at_update_at:
  "open_sections c p ss pos \<Longrightarrow> get_at (update_at f p c) p = f (get_at c p)"
  by (induction c p ss pos rule: open_sections.induct) simp_all

lemma open_sections_top:
  assumes "open_sections c p ss pos" and "p \<noteq> []"
  shows "isSectionBegin (comp_tag (get_at c p)) \<and> sectionText (comp_tag (get_at c p)) = None \<and>
         ss \<noteq> [] \<and>
         (if children (get_at c p) = [] then pos = last ss
          else position (hd (children (get_at c p))) = last ss)"
  using assms
proof (induction c p ss pos rule: open_sections.induct)
  case (3 c i p s starts pos)
  show ?case
  proof (cases "p = []")
    case True
    with 3 show ?thesis by simp
  next
    case False
    with 3 have "starts \<noteq> []" by simp
    with 3 False show ?thesis by simp
  qed
qed simp_all

lemma section_texts_ok_get_at:
  "open_sections c p ss pos \<Longrightarrow> section_texts_ok input c \<Longrightarrow> section_texts_ok input (get_at c p)"
proof (induction c p ss pos rule: open_sections.induct)
  case (3 c i p s starts pos)
  from 3(3) have "list_all (section_texts_ok input) (children c)"
    by (subst (asm) section_texts_ok_unfold) simp
  with 3(2) have "section_texts_ok input (children c ! i)"
    by (simp add: list_all_length)
  with 3 show ?case by simp
qed simp_all

lemma section_texts_ok_update_at:
  assumes "open_sections c p ss pos" and "sectionText (comp_tag c) = None"
    and "section_texts_ok input c" and "section_texts_ok input (f (get_at c p))"
  shows "section_texts_ok input (update_at f p c)"
  using assms
proof (induction c p ss pos rule: open_sections.induct)
  case (3 c i p s starts pos)
  from 3(4) have all: "list_all (section_texts_ok input) (children c)"
    by (subst (asm) section_texts_ok_unfold) simp
  with 3(2) have "section_texts_ok input (children c ! i)"
    by (simp add: list_all_length)
  with 3 have "section_texts_ok input (update_at f p (children c ! i))" by simp
  with all have "list_all (section_texts_ok input)
      ((children c)[i := update_at f p (children c ! i)])"
    by (rule list_all_list_update)
  with 3(3) show ?case by simp
qed simp_all

text \<open>A child added at the end of the pointer.\<close>

lemma open_sections_push_back:
  assumes "open_sections c p ss pos"
    and "children (get_at c p) = [] \<longrightarrow> position leaf = pos"
  shows "open_sections (update_at (push_back_child leaf) p c) p ss pos'"
  using assms
proof (induction c p ss pos rule: open_sections.induct)
  case (3 c i p s starts pos)
  let ?d = "children c ! i"
  let ?d' = "update_at (push_back_child leaf) p ?d"
  from 3(2) have i: "i < length (children c)" and o: "open_sections ?d p starts pos"
    and st: "if children ?d = [] then pos = s else position (hd (children ?d)) = s"
    and tg: "isSectionBegin (comp_tag ?d)" "sectionText (comp_tag ?d) = None"
    by simp_all
  from 3(3) have lf: "children (get_at ?d p) = [] \<longrightarrow> position leaf = pos" by simp
  have rec: "open_sections ?d' p starts pos'" by (rule 3(1) [OF o lf])
  have ne: "children ?d' \<noteq> [] \<and> position (hd (children ?d')) = s"
  proof (cases p)
    case Nil
    with st lf show ?thesis
      by (cases "children (children c ! i)") (auto simp: push_back_child_def)
  next
    case (Cons j r)
    with o have j: "j < length (children ?d)" by (cases starts) simp_all
    then have cne: "children ?d \<noteq> []" by auto
    with st have "position (hd (children ?d)) = s" by simp
    moreover have "position (update_at (push_back_child leaf) r (children ?d ! j))
        = position (children ?d ! j)"
      by (rule position_update_at) (simp add: push_back_child_def)
    ultimately show ?thesis using j Cons cne by (simp add: position_hd_list_update)
  qed
  from i tg ne rec show ?case by (simp add: comp_tag_update_at_push)
qed simp_all

text \<open>The pointer to the last child, pushed on \<^verbatim>\<open>sections\<close>.\<close>

lemma open_sections_push:
  assumes "open_sections c p ss pos"
    and "children (get_at c p) \<noteq> []"
    and "isSectionBegin (comp_tag (last (children (get_at c p))))"
    and "sectionText (comp_tag (last (children (get_at c p)))) = None"
    and "children (last (children (get_at c p))) = []"
  shows "open_sections c (p @ [length (children (get_at c p)) - 1]) (ss @ [pos]) pos"
  using assms
proof (induction c p ss pos rule: open_sections.induct)
  case (1 c starts pos)
  then show ?case by (simp add: last_conv_nth)
qed simp_all

text \<open>The section at the end of the pointer gets its text, and the pointer is popped.\<close>

lemma open_sections_pop:
  assumes "open_sections c p ss pos" and "p \<noteq> []"
  shows "open_sections (update_at (set_sectionText t) p c) (butlast p) (butlast ss) pos'"
  using assms
proof (induction c p ss pos rule: open_sections.induct)
  case (3 c i p s starts pos)
  let ?d = "children c ! i"
  let ?d' = "update_at (set_sectionText t) p ?d"
  from 3(2) have i: "i < length (children c)" and o: "open_sections ?d p starts pos"
    and st: "if children ?d = [] then pos = s else position (hd (children ?d)) = s"
    and tg: "isSectionBegin (comp_tag ?d)" "sectionText (comp_tag ?d) = None"
    by simp_all
  show ?case
  proof (cases p)
    case Nil
    with o show ?thesis by simp
  next
    case (Cons j r)
    with o have j: "j < length (children ?d)" and sne: "starts \<noteq> []"
      by (cases starts; simp)+
    then have cne: "children ?d \<noteq> []" by auto
    with st have "position (hd (children ?d)) = s" by simp
    moreover have "position (update_at (set_sectionText t) r (children ?d ! j))
        = position (children ?d ! j)"
      by (rule position_update_at) (simp add: set_sectionText_def)
    ultimately have ne: "children ?d' \<noteq> [] \<and> position (hd (children ?d')) = s"
      using j Cons cne by (simp add: position_hd_list_update)
    have tg': "comp_tag ?d' = comp_tag ?d" using Cons by simp
    have rec: "open_sections ?d' (butlast p) (butlast starts) pos'"
      by (rule 3(1) [OF o]) (simp add: Cons)
    from sne obtain s' starts' where ss: "starts = s' # starts'" by (cases starts) auto
    from i tg ne rec tg' show ?thesis
      by (simp add: Cons ss)
  qed
qed simp_all

lemma butlast_prefixes: "p \<noteq> [] \<Longrightarrow> butlast (prefixes p) = prefixes (butlast p)"
  by (cases p rule: rev_cases) simp_all

lemma sectionText_parseTagContents: "sectionText (parseTagContents u contents new_Tag) = None"
  by (simp add: parseTagContents_def new_Tag_def Let_def)

text \<open>The tree after \<^verbatim>\<open>sections.back()->children.push_back(comp)\<close>.\<close>

lemma add_child_sections:
  assumes root: "sectionText (comp_tag (ps_rootComponent st)) = None"
    and o: "open_sections (ps_rootComponent st) (last (sections st)) (sectionStarts st) pos"
    and ok: "section_texts_ok input (ps_rootComponent st)"
    and leaf: "children leaf = []" "sectionText (comp_tag leaf) = None"
    and first: "children (get_at (ps_rootComponent st) (last (sections st))) = [] \<longrightarrow>
                position leaf = pos"
  shows "sectionText (comp_tag (ps_rootComponent (add_child leaf st))) = None"
    and "open_sections (ps_rootComponent (add_child leaf st)) (last (sections st))
           (sectionStarts st) pos'"
    and "section_texts_ok input (ps_rootComponent (add_child leaf st))"
    and "get_at (ps_rootComponent (add_child leaf st)) (last (sections st)) =
           push_back_child leaf (get_at (ps_rootComponent st) (last (sections st)))"
proof -
  let ?p = "last (sections st)"
  let ?root = "ps_rootComponent st"
  show "sectionText (comp_tag (ps_rootComponent (add_child leaf st))) = None"
    using root by (simp add: add_child_def comp_tag_update_at_push)
  show "open_sections (ps_rootComponent (add_child leaf st)) ?p (sectionStarts st) pos'"
    using open_sections_push_back [OF o first] by (simp add: add_child_def)
  have none: "sectionText (comp_tag (get_at ?root ?p)) = None"
    using root open_sections_top [OF o] by (cases "?p = []") simp_all
  have "section_texts_ok input (get_at ?root ?p)"
    by (rule section_texts_ok_get_at [OF o ok])
  then have "list_all (section_texts_ok input) (children (get_at ?root ?p))"
    by (subst (asm) section_texts_ok_unfold) simp
  moreover have "section_texts_ok input leaf"
    using leaf by (subst section_texts_ok_unfold) simp
  ultimately have "section_texts_ok input (push_back_child leaf (get_at ?root ?p))"
    using none by (simp add: push_back_child_def)
  from section_texts_ok_update_at [where f = "push_back_child leaf", OF o root ok this]
  show "section_texts_ok input (ps_rootComponent (add_child leaf st))"
    by (simp add: add_child_def)
  show "get_at (ps_rootComponent (add_child leaf st)) ?p = push_back_child leaf (get_at ?root ?p)"
    using get_at_update_at [OF o] by (simp add: add_child_def)
qed

text \<open>Lines 535 to 557, for the tag component at \<open>ts\<close>.\<close>

lemma finish_sections:
  assumes p: "push_or_pop input ts (Component [] t [] ts)
      ((add_child (Component [] t [] ts) st)\<lparr>inputPosition := pos'\<rparr>) = Iterated st'"
    and pre: "sections st = prefixes (last (sections st))"
    and root: "sectionText (comp_tag (ps_rootComponent st)) = None"
    and o: "open_sections (ps_rootComponent st) (last (sections st)) (sectionStarts st) pos"
    and first: "children (get_at (ps_rootComponent st) (last (sections st))) = [] \<longrightarrow> ts = pos"
    and ok: "section_texts_ok input (ps_rootComponent st)"
    and t: "sectionText t = None"
  shows "sections_inv input st'"
proof -
  let ?cmp = "Component [] t [] ts"
  let ?p = "last (sections st)"
  let ?ss = "sectionStarts st"
  let ?st2 = "(add_child ?cmp st)\<lparr>inputPosition := pos'\<rparr>"
  let ?root2 = "ps_rootComponent (add_child ?cmp st)"
  have first': "children (get_at (ps_rootComponent st) ?p) = [] \<longrightarrow> position ?cmp = pos"
    using first by simp
  note a = add_child_sections [OF root o ok _ _ first']
  have root2: "sectionText (comp_tag ?root2) = None" by (rule a(1)) (simp_all add: t)
  have o2: "open_sections ?root2 ?p ?ss pos'" by (rule a(2)) (simp_all add: t)
  have ok2: "section_texts_ok input ?root2" by (rule a(3)) (simp_all add: t)
  have g2: "get_at ?root2 ?p = push_back_child ?cmp (get_at (ps_rootComponent st) ?p)"
    by (rule a(4)) (simp_all add: t)
  have s2: "sections ?st2 = sections st" "sectionStarts ?st2 = ?ss"
    "ps_rootComponent ?st2 = ?root2" "inputPosition ?st2 = pos'"
    by (simp_all add: add_child_def)
  show ?thesis
  proof (cases "isSectionBegin t")
    case True
    let ?q = "?p @ [length (children (get_at ?root2 ?p)) - 1]"
    from p True have st': "st' = ?st2\<lparr>sections := sections st @ [?q],
        sectionStarts := ?ss @ [pos']\<rparr>"
      by (simp add: push_or_pop_def s2)
    have "open_sections ?root2 ?q (?ss @ [pos']) pos'"
      by (rule open_sections_push [OF o2]) (simp_all add: g2 push_back_child_def True t)
    moreover have "sections st @ [?q] = prefixes ?q"
      by (subst pre) simp
    ultimately show ?thesis
      using root2 ok2 by (simp add: sections_inv_def st' s2)
  next
    case False
    show ?thesis
    proof (cases "isSectionEnd t")
      case True
      let ?txt = "substr input (last ?ss) (ts - last ?ss)"
      from p True False have len: "length (sections st) \<noteq> 1"
        and st': "st' = ?st2\<lparr>
             ps_rootComponent := update_at (set_sectionText ?txt) ?p ?root2,
             sections := butlast (sections st),
             sectionStarts := butlast ?ss\<rparr>"
        by (auto simp: push_or_pop_def s2 split: if_splits)
      from len have pne: "?p \<noteq> []"
        by (subst (asm) pre) simp
      have pre': "butlast (sections st) = prefixes (butlast ?p)"
        by (subst pre) (simp add: butlast_prefixes pne)
      have o3: "open_sections (update_at (set_sectionText ?txt) ?p ?root2) (butlast ?p)
          (butlast ?ss) pos'"
        by (rule open_sections_pop [OF o2 pne])
      have root3: "sectionText (comp_tag (update_at (set_sectionText ?txt) ?p ?root2)) = None"
        using root2 pne by (cases ?p) simp_all
      note top = open_sections_top [OF o2 pne]
      let ?d = "get_at ?root2 ?p"
      have cd: "children ?d = children (get_at (ps_rootComponent st) ?p) @ [?cmp]"
        by (simp add: g2 push_back_child_def)
      then have cne: "children ?d \<noteq> []" and lst: "last (children ?d) = ?cmp" by simp_all
      from top cne have hd: "position (hd (children ?d)) = last ?ss" by simp
      from top have sb: "isSectionBegin (comp_tag ?d)" by simp
      have "section_texts_ok input ?d" by (rule section_texts_ok_get_at [OF o2 ok2])
      then have all: "list_all (section_texts_ok input) (children ?d)"
        by (subst (asm) section_texts_ok_unfold) simp
      have "section_texts_ok input (set_sectionText ?txt ?d)"
        by (subst section_texts_ok_unfold)
          (use sb cne lst hd all True in \<open>simp add: set_sectionText_def isSectionBegin_def\<close>)
      from section_texts_ok_update_at [where f = "set_sectionText ?txt", OF o2 root2 ok2 this]
      have ok3: "section_texts_ok input (update_at (set_sectionText ?txt) ?p ?root2)" .
      from o3 root3 ok3 pre' show ?thesis
        by (simp add: sections_inv_def st' s2)
    next
      case False
      with \<open>\<not> isSectionBegin t\<close> p have "st' = ?st2" by (simp add: push_or_pop_def)
      with pre root2 o2 ok2 show ?thesis by (simp add: sections_inv_def s2)
    qed
  qed
qed

lemma parse_tag_sections:
  assumes pt: "parse_tag input ts tcl te u endSize st = Iterated st'"
    and pre: "sections st = prefixes (last (sections st))"
    and root: "sectionText (comp_tag (ps_rootComponent st)) = None"
    and o: "open_sections (ps_rootComponent st) (last (sections st)) (sectionStarts st) pos"
    and first: "children (get_at (ps_rootComponent st) (last (sections st))) = [] \<longrightarrow> ts = pos"
    and ok: "section_texts_ok input (ps_rootComponent st)"
  shows "sections_inv input st'"
proof -
  let ?contents = "trim (substr input tcl (te - tcl))"
  show ?thesis
  proof (cases "?contents \<noteq> [] \<and> hd ?contents = CHR ''=''")
    case True
    let ?t = "\<lambda>d. new_Tag\<lparr>tag_type := SetDelimiter, tag_delimiterSet := Some d\<rparr>"
    from True pt obtain d where
      p: "push_or_pop input ts (Component [] (?t d) [] ts)
          ((add_child (Component [] (?t d) [] ts)
             (st\<lparr>ctx_delimiterSet := d, currentDelimiterIsBrace := isDefault d\<rparr>))
             \<lparr>inputPosition := te + endSize\<rparr>) = Iterated st'"
      by (auto simp: parse_tag_def Let_def split: sum.splits prod.splits if_splits)
    show ?thesis
      by (rule finish_sections [OF p, where pos = pos])
        (use pre root o first ok in \<open>simp_all add: new_Tag_def\<close>)
  next
    case False
    from False pt have p: "push_or_pop input ts
          (Component [] (parseTagContents u ?contents new_Tag) [] ts)
          ((add_child (Component [] (parseTagContents u ?contents new_Tag) [] ts) st)
             \<lparr>inputPosition := te + endSize\<rparr>) = Iterated st'"
      by (auto simp: parse_tag_def Let_def)
    show ?thesis
      by (rule finish_sections [OF p pre root o first ok]) (rule sectionText_parseTagContents)
  qed
qed

lemma text_child_sections:
  assumes inv: "sections_inv input st"
    and st1_def: "st1 = add_child (text_Component txt (inputPosition st)) st"
  shows "sections st1 = prefixes (last (sections st1))"
    and "sectionText (comp_tag (ps_rootComponent st1)) = None"
    and "open_sections (ps_rootComponent st1) (last (sections st1)) (sectionStarts st1)
           (inputPosition st)"
    and "children (get_at (ps_rootComponent st1) (last (sections st1))) \<noteq> []"
    and "section_texts_ok input (ps_rootComponent st1)"
proof -
  from inv have pre: "sections st = prefixes (last (sections st))"
    and root: "sectionText (comp_tag (ps_rootComponent st)) = None"
    and o: "open_sections (ps_rootComponent st) (last (sections st)) (sectionStarts st)
              (inputPosition st)"
    and ok: "section_texts_ok input (ps_rootComponent st)"
    by (simp_all add: sections_inv_def)
  have s1: "sections st1 = sections st" "sectionStarts st1 = sectionStarts st"
    by (simp_all add: st1_def add_child_def)
  note a = add_child_sections [OF root o ok, of "text_Component txt (inputPosition st)"]
  show "sections st1 = prefixes (last (sections st1))" using pre by (simp only: s1)
  show "sectionText (comp_tag (ps_rootComponent st1)) = None"
    unfolding st1_def by (rule a(1)) (simp_all add: text_Component_def new_Tag_def)
  show "open_sections (ps_rootComponent st1) (last (sections st1)) (sectionStarts st1)
           (inputPosition st)"
    unfolding s1 unfolding st1_def by (rule a(2)) (simp_all add: text_Component_def new_Tag_def)
  show "section_texts_ok input (ps_rootComponent st1)"
    unfolding st1_def by (rule a(3)) (simp_all add: text_Component_def new_Tag_def)
  have "get_at (ps_rootComponent st1) (last (sections st)) =
      push_back_child (text_Component txt (inputPosition st))
        (get_at (ps_rootComponent st) (last (sections st)))"
    unfolding st1_def by (rule a(4)) (simp_all add: text_Component_def new_Tag_def)
  then show "children (get_at (ps_rootComponent st1) (last (sections st1))) \<noteq> []"
    by (simp add: s1 push_back_child_def)
qed

text \<open>One run of the loop body keeps the invariant of the sections.\<close>

lemma parse_step_sections:
  assumes inv: "sections_inv input st" and step: "parse_step input st = Iterated st'"
  shows "sections_inv input st'"
proof -
  let ?b = "delim_begin (ctx_delimiterSet st)"
  let ?e = "delim_end (ctx_delimiterSet st)"
  let ?txt = "\<lambda>ts. text_Component (substr input (inputPosition st) (ts - inputPosition st))
                   (inputPosition st)"
  from step obtain ts u te where
    pt: "parse_tag input ts (if u then ts + length ?b + 1 else ts + length ?b)
           te u (length (if u then ''}}}'' else ?e))
           (if ts \<noteq> inputPosition st then add_child (?txt ts) st else st) = Iterated st'"
    by (rule parse_step_Iterated)
  show ?thesis
  proof (cases "ts = inputPosition st")
    case True
    with pt have pt': "parse_tag input ts (if u then ts + length ?b + 1 else ts + length ?b)
           te u (length (if u then ''}}}'' else ?e)) st = Iterated st'"
      by simp
    from inv show ?thesis
      by (intro parse_tag_sections [OF pt', where pos = "inputPosition st"])
        (simp_all add: sections_inv_def True)
  next
    case False
    with pt have pt': "parse_tag input ts (if u then ts + length ?b + 1 else ts + length ?b)
           te u (length (if u then ''}}}'' else ?e)) (add_child (?txt ts) st) = Iterated st'"
      by simp
    note t = text_child_sections [OF inv refl,
        of "substr input (inputPosition st) (ts - inputPosition st)"]
    show ?thesis
      by (rule parse_tag_sections [OF pt' t(1) t(2) t(3) _ t(5)]) (simp add: t(4))
  qed
qed

lemma new_ParseState_sections: "sections_inv input (new_ParseState d)"
  by (simp add: sections_inv_def new_ParseState_def new_Component_def new_Tag_def)

lemma push_or_pop_Returned:
  "push_or_pop input ts cmp st = Returned st' \<Longrightarrow> ps_errorMessage st' \<noteq> []"
  by (auto simp: push_or_pop_def split: if_splits)

lemma parse_tag_Returned:
  "parse_tag input ts tcl te u endSize st = Returned st' \<Longrightarrow> ps_errorMessage st' \<noteq> []"
  by (auto simp: parse_tag_def Let_def parseSetDelimiterTag_spec split: if_splits
      dest: push_or_pop_Returned)

lemma parse_step_Returned:
  "parse_step input st = Returned st' \<Longrightarrow> ps_errorMessage st' \<noteq> []"
  by (auto simp: parse_step_def Let_def split: option.splits sum.splits
      dest: parse_tag_Returned)

lemma parse_step_Broke_eq:
  assumes "parse_step input st = Broke st'"
  shows "st' = add_child
      (text_Component (substr input (inputPosition st) (length input - inputPosition st))
         (inputPosition st)) st"
  using assms
  by (auto simp: parse_step_def Let_def parse_tag_result split: option.splits sum.splits)

lemma parse_loop_sections:
  "sections_inv input st \<Longrightarrow> parse_loop n input st = Done (finished, st') \<Longrightarrow>
     (finished \<longrightarrow> section_texts_ok input (ps_rootComponent st')) \<and>
     (\<not> finished \<longrightarrow> ps_errorMessage st' \<noteq> [])"
proof (induction n arbitrary: st)
  case 0
  then show ?case by (auto simp: sections_inv_def split: if_splits)
next
  case (Suc n)
  show ?case
  proof (cases "inputPosition st = length input")
    case True
    with Suc.prems show ?thesis by (auto simp: sections_inv_def)
  next
    case False
    show ?thesis
    proof (cases "parse_step input st")
      case (Thrown f)
      with Suc.prems(2) False show ?thesis by simp
    next
      case (Returned st'')
      with Suc.prems(2) False parse_step_Returned [OF Returned] show ?thesis by auto
    next
      case (Broke st'')
      note t = text_child_sections [OF Suc.prems(1) parse_step_Broke_eq [OF Broke]]
      from Suc.prems(2) False Broke t(5) show ?thesis by auto
    next
      case (Iterated st'')
      from Suc.prems(2) False Iterated have "parse_loop n input st'' = Done (finished, st')"
        by simp
      from Suc.IH [OF parse_step_sections [OF Suc.prems(1) Iterated] this] show ?thesis .
    qed
  qed
qed

lemma parse_section_texts:
  assumes "parse fuel input d = Done (tmpl, d')" and "isValid tmpl"
  shows "section_texts_ok input (rootComponent tmpl)"
proof -
  from assms(1) obtain finished st where
    l: "parse_loop fuel input (new_ParseState d) = Done (finished, st)"
    by (auto simp: parse_def split: outcome.splits)
  note s = parse_loop_sections [OF new_ParseState_sections l]
  show ?thesis
  proof (cases finished)
    case True
    with assms(1) l have "rootComponent tmpl = ps_rootComponent st"
      by (auto simp: parse_def split: outcome.splits)
    with s True show ?thesis by simp
  next
    case False
    with assms(1) l have "errorMessage tmpl = ps_errorMessage st"
      by (auto simp: parse_def)
    with s False assms(2) show ?thesis by (simp add: isValid_def)
  qed
qed

lemma get_at_append: "get_at c (p @ q) = get_at (get_at c p) q"
  by (induction p arbitrary: c) simp_all

text \<open>The state in which the tag component is added: a text may have been added before.\<close>

lemma before_tag_sections:
  assumes inv: "sections_inv input st"
    and st1: "st1 = (if ts \<noteq> inputPosition st
                then add_child (text_Component txt (inputPosition st)) st
                else st)"
  shows "sections st1 = sections st" and "sectionStarts st1 = sectionStarts st"
    and "sectionText (comp_tag (ps_rootComponent st1)) = None"
    and "open_sections (ps_rootComponent st1) (last (sections st)) (sectionStarts st)
           (inputPosition st)"
    and "children (get_at (ps_rootComponent st1) (last (sections st))) = [] \<longrightarrow>
           ts = inputPosition st"
    and "section_texts_ok input (ps_rootComponent st1)"
proof -
  show s: "sections st1 = sections st" "sectionStarts st1 = sectionStarts st"
    by (simp_all add: st1 add_child_def)
  show "sectionText (comp_tag (ps_rootComponent st1)) = None"
    and "open_sections (ps_rootComponent st1) (last (sections st)) (sectionStarts st)
           (inputPosition st)"
    and "children (get_at (ps_rootComponent st1) (last (sections st))) = [] \<longrightarrow>
           ts = inputPosition st"
    and "section_texts_ok input (ps_rootComponent st1)"
  proof -
    have "sectionText (comp_tag (ps_rootComponent st1)) = None \<and>
      open_sections (ps_rootComponent st1) (last (sections st)) (sectionStarts st)
           (inputPosition st) \<and>
      (children (get_at (ps_rootComponent st1) (last (sections st))) = [] \<longrightarrow>
           ts = inputPosition st) \<and>
      section_texts_ok input (ps_rootComponent st1)"
    proof (cases "ts = inputPosition st")
      case True
      with inv st1 show ?thesis by (simp add: sections_inv_def)
    next
      case False
      then have e: "st1 = add_child (text_Component txt (inputPosition st)) st"
        by (simp add: st1)
      note t = text_child_sections [OF inv e]
      from t show ?thesis by (simp add: s)
    qed
    then show "sectionText (comp_tag (ps_rootComponent st1)) = None"
      and "open_sections (ps_rootComponent st1) (last (sections st)) (sectionStarts st)
           (inputPosition st)"
      and "children (get_at (ps_rootComponent st1) (last (sections st))) = [] \<longrightarrow>
           ts = inputPosition st"
      and "section_texts_ok input (ps_rootComponent st1)"
      by simp_all
  qed
qed

lemma section_begin_step:
  assumes "str_find input (delim_begin (ctx_delimiterSet st)) (inputPosition st) = Some ts"
    and "tcl = ts + length (delim_begin (ctx_delimiterSet st))"
    and "tagIsUnescapedVar input st ts tcl = Inr False"
    and "str_find input (delim_end (ctx_delimiterSet st)) tcl = Some te"
    and "contents = trim (substr input tcl (te - tcl))"
    and "contents \<noteq> []"
    and st1: "st1 = (if ts \<noteq> inputPosition st
                then add_child (text_Component (substr input (inputPosition st) (ts - inputPosition st))
                       (inputPosition st)) st
                else st)"
    and inv: "sections_inv input st"
    and "hd contents = CHR ''#''"
  shows "\<exists>st'. parse_step input st = Iterated st' \<and>
           sections_inv input st' \<and>
           inputPosition st' = te + length (delim_end (ctx_delimiterSet st)) \<and>
           sectionStarts st' = sectionStarts st @ [te + length (delim_end (ctx_delimiterSet st))] \<and>
           sections st' = sections st @ [last (sections st')] \<and>
           get_at (ps_rootComponent st') (last (sections st')) =
             Component [] (new_Tag\<lparr>tag_type := SectionBegin, tag_name := trim (tl contents)\<rparr>) [] ts"
proof -
  let ?cmp = "Component [] (new_Tag\<lparr>tag_type := SectionBegin, tag_name := trim (tl contents)\<rparr>) [] ts"
  let ?p = "last (sections st)"
  let ?root2 = "ps_rootComponent (add_child ?cmp st1)"
  let ?q = "?p @ [length (children (get_at ?root2 ?p)) - 1]"
  let ?st' = "(add_child ?cmp st1)\<lparr>
      inputPosition := te + length (delim_end (ctx_delimiterSet st)),
      sections := sections st @ [?q],
      sectionStarts := sectionStarts st @ [te + length (delim_end (ctx_delimiterSet st))]\<rparr>"
  note b = before_tag_sections [OF inv st1]
  have step: "parse_step input st = Iterated ?st'"
    using assms(1-7,9)
    by (auto simp: parse_step_def Let_def parse_tag_def parseTagContents_def tag_type_of_sigil_def
        push_or_pop_def isSectionBegin_def isSectionEnd_def add_child_def new_Tag_def)
  have first: "children (get_at (ps_rootComponent st1) (last (sections st1))) = [] \<longrightarrow>
      position ?cmp = inputPosition st"
    using b(5) by (simp add: b(1))
  have o1: "open_sections (ps_rootComponent st1) (last (sections st1)) (sectionStarts st1)
      (inputPosition st)"
    using b(4) by (simp add: b(1,2))
  have g2: "get_at ?root2 ?p = push_back_child ?cmp (get_at (ps_rootComponent st1) ?p)"
    using add_child_sections(4) [OF b(3) o1 b(6) _ _ first] by (simp add: b(1) new_Tag_def)
  have "get_at ?root2 ?q = ?cmp"
    by (simp add: get_at_append g2 push_back_child_def)
  then have "get_at (ps_rootComponent ?st') (last (sections ?st')) = ?cmp" by simp
  moreover have "sections_inv input ?st'" by (rule parse_step_sections [OF inv step])
  ultimately show ?thesis using step by simp
qed

lemma section_end_step:
  assumes "str_find input (delim_begin (ctx_delimiterSet st)) (inputPosition st) = Some ts"
    and "tcl = ts + length (delim_begin (ctx_delimiterSet st))"
    and "tagIsUnescapedVar input st ts tcl = Inr False"
    and "str_find input (delim_end (ctx_delimiterSet st)) tcl = Some te"
    and "contents = trim (substr input tcl (te - tcl))"
    and "contents \<noteq> []"
    and st1: "st1 = (if ts \<noteq> inputPosition st
                then add_child (text_Component (substr input (inputPosition st) (ts - inputPosition st))
                       (inputPosition st)) st
                else st)"
    and inv: "sections_inv input st"
    and "hd contents = CHR ''/''" and "length (sections st) \<noteq> 1"
  shows "\<exists>st'. parse_step input st = Iterated st' \<and>
           sections_inv input st' \<and>
           sectionStarts st' = butlast (sectionStarts st) \<and>
           sections st' = butlast (sections st) \<and>
           ps_rootComponent st' =
             update_at
               (set_sectionText
                  (substr input (last (sectionStarts st)) (ts - last (sectionStarts st))))
               (last (sections st))
               (ps_rootComponent
                  (add_child
                     (Component []
                        (new_Tag\<lparr>tag_type := SectionEnd, tag_name := trim (tl contents)\<rparr>) [] ts)
                     st1)) \<and>
           get_at (ps_rootComponent st') (last (sections st)) =
             set_sectionText
               (substr input (last (sectionStarts st)) (ts - last (sectionStarts st)))
               (push_back_child
                  (Component []
                     (new_Tag\<lparr>tag_type := SectionEnd, tag_name := trim (tl contents)\<rparr>) [] ts)
                  (get_at (ps_rootComponent st1) (last (sections st)))) \<and>
           isSectionBegin (comp_tag (get_at (ps_rootComponent st') (last (sections st)))) \<and>
           position (hd (children (get_at (ps_rootComponent st') (last (sections st))))) =
             last (sectionStarts st)"
proof -
  let ?cmp = "Component [] (new_Tag\<lparr>tag_type := SectionEnd, tag_name := trim (tl contents)\<rparr>) [] ts"
  let ?p = "last (sections st)"
  let ?txt = "substr input (last (sectionStarts st)) (ts - last (sectionStarts st))"
  let ?root2 = "ps_rootComponent (add_child ?cmp st1)"
  let ?st' = "(add_child ?cmp st1)\<lparr>
      inputPosition := te + length (delim_end (ctx_delimiterSet st)),
      ps_rootComponent := update_at (set_sectionText ?txt) ?p ?root2,
      sections := butlast (sections st),
      sectionStarts := butlast (sectionStarts st)\<rparr>"
  note b = before_tag_sections [OF inv st1]
  have step: "parse_step input st = Iterated ?st'"
    using assms(1-7,9,10)
    by (auto simp: parse_step_def Let_def parse_tag_def parseTagContents_def tag_type_of_sigil_def
        push_or_pop_def isSectionBegin_def isSectionEnd_def add_child_def new_Tag_def)
  from inv have pre: "sections st = prefixes ?p" by (simp add: sections_inv_def)
  from assms(10) have pne: "?p \<noteq> []" by (subst (asm) pre) simp
  have first: "children (get_at (ps_rootComponent st1) (last (sections st1))) = [] \<longrightarrow>
      position ?cmp = inputPosition st"
    using b(5) by (simp add: b(1))
  have o1: "open_sections (ps_rootComponent st1) (last (sections st1)) (sectionStarts st1)
      (inputPosition st)"
    using b(4) by (simp add: b(1,2))
  note a = add_child_sections [OF b(3) o1 b(6) _ _ first]
  have g2: "get_at ?root2 ?p = push_back_child ?cmp (get_at (ps_rootComponent st1) ?p)"
    using a(4) by (simp add: b(1) new_Tag_def)
  have o2: "open_sections ?root2 ?p (sectionStarts st) (inputPosition st)"
    using a(2) [where pos' = "inputPosition st"] by (simp add: b(1,2) new_Tag_def)
  have g3: "get_at (update_at (set_sectionText ?txt) ?p ?root2) ?p =
      set_sectionText ?txt (push_back_child ?cmp (get_at (ps_rootComponent st1) ?p))"
    by (simp add: get_at_update_at [OF o2] g2)
  note top = open_sections_top [OF o2 pne]
  from top have sb: "isSectionBegin (comp_tag (get_at ?root2 ?p))" by simp
  have "children (get_at ?root2 ?p) \<noteq> []" by (simp add: g2 push_back_child_def)
  with top have hd: "position (hd (children (get_at ?root2 ?p))) = last (sectionStarts st)"
    by simp
  have g3': "get_at (update_at (set_sectionText ?txt) ?p ?root2) ?p =
      set_sectionText ?txt (get_at ?root2 ?p)"
    by (simp add: get_at_update_at [OF o2])
  have "isSectionBegin (comp_tag (get_at (update_at (set_sectionText ?txt) ?p ?root2) ?p))"
    using sb unfolding g3' by (simp add: set_sectionText_def isSectionBegin_def)
  moreover have "position (hd (children (get_at (update_at (set_sectionText ?txt) ?p ?root2) ?p)))
      = last (sectionStarts st)"
    using hd unfolding g3' by (simp add: set_sectionText_def)
  moreover have "sections_inv input ?st'" by (rule parse_step_sections [OF inv step])
  ultimately show ?thesis using step g3 by simp
qed

text \<open>
  \<^verbatim>\<open>sections\<close> and \<^verbatim>\<open>sectionStarts\<close> are stacks: a run of the loop body pushes one entry on
  each, or pops one from each, or leaves both as they are.
\<close>

lemma push_or_pop_stacks:
  assumes "push_or_pop input ts cmp st = Iterated st'"
  shows "(sections st' = sections st \<and> sectionStarts st' = sectionStarts st) \<or>
         (\<exists>q s. sections st' = sections st @ [q] \<and> sectionStarts st' = sectionStarts st @ [s]) \<or>
         (sections st' = butlast (sections st) \<and> sectionStarts st' = butlast (sectionStarts st))"
  using assms by (auto simp: push_or_pop_def split: if_splits)

lemma parse_tag_stacks:
  assumes pt: "parse_tag input ts tcl te u endSize st = Iterated st'"
  shows "(sections st' = sections st \<and> sectionStarts st' = sectionStarts st) \<or>
         (\<exists>q s. sections st' = sections st @ [q] \<and> sectionStarts st' = sectionStarts st @ [s]) \<or>
         (sections st' = butlast (sections st) \<and> sectionStarts st' = butlast (sectionStarts st))"
proof -
  let ?contents = "trim (substr input tcl (te - tcl))"
  show ?thesis
  proof (cases "?contents \<noteq> [] \<and> hd ?contents = CHR ''=''")
    case True
    let ?t = "\<lambda>d. new_Tag\<lparr>tag_type := SetDelimiter, tag_delimiterSet := Some d\<rparr>"
    from True pt obtain d where
      p: "push_or_pop input ts (Component [] (?t d) [] ts)
          ((add_child (Component [] (?t d) [] ts)
             (st\<lparr>ctx_delimiterSet := d, currentDelimiterIsBrace := isDefault d\<rparr>))
             \<lparr>inputPosition := te + endSize\<rparr>) = Iterated st'"
      by (auto simp: parse_tag_def Let_def split: sum.splits prod.splits if_splits)
    from push_or_pop_stacks [OF p] show ?thesis by (simp add: add_child_def)
  next
    case False
    from False pt have p: "push_or_pop input ts
          (Component [] (parseTagContents u ?contents new_Tag) [] ts)
          ((add_child (Component [] (parseTagContents u ?contents new_Tag) [] ts) st)
             \<lparr>inputPosition := te + endSize\<rparr>) = Iterated st'"
      by (auto simp: parse_tag_def Let_def)
    from push_or_pop_stacks [OF p] show ?thesis by (simp add: add_child_def)
  qed
qed

lemma parse_step_stacks:
  assumes step: "parse_step input st = Iterated st'"
  shows "(sections st' = sections st \<and> sectionStarts st' = sectionStarts st) \<or>
         (\<exists>q s. sections st' = sections st @ [q] \<and> sectionStarts st' = sectionStarts st @ [s]) \<or>
         (sections st' = butlast (sections st) \<and> sectionStarts st' = butlast (sectionStarts st))"
proof -
  from step obtain ts u te where
    pt: "parse_tag input ts
           (if u then ts + length (delim_begin (ctx_delimiterSet st)) + 1
            else ts + length (delim_begin (ctx_delimiterSet st)))
           te u (length (if u then ''}}}'' else delim_end (ctx_delimiterSet st)))
           (if ts \<noteq> inputPosition st
            then add_child (text_Component (substr input (inputPosition st) (ts - inputPosition st))
                   (inputPosition st)) st
            else st) = Iterated st'"
    by (rule parse_step_Iterated)
  from parse_tag_stacks [OF pt] show ?thesis by (simp add: add_child_def split: if_splits)
qed

section \<open>Escaping\<close>

text \<open>
  Claim C6. For every string \<open>s\<close>, against the object whose one key \<^verbatim>\<open>x\<close> holds \<open>s\<close>, the template
  \<^verbatim>\<open>{{x}}\<close> renders \<open>escape s\<close>, and the templates \<^verbatim>\<open>{{{x}}}\<close> and \<^verbatim>\<open>{{&x}}\<close> both render \<open>s\<close>
  itself; \<open>escape\<close> replaces each of the five characters \<^verbatim>\<open>&\<close>, \<^verbatim>\<open><\<close>, \<^verbatim>\<open>>\<close>, the double and the
  single quote by its entity and leaves every other character as it is. Any fuel from 1
  on is enough.
\<close>

theorem escaping:
  "\<exists>t1 t2 t3.
     BasicMustache (Suc fuel) ''{{x}}'' = Done t1 \<and> isValid t1 \<and>
     BasicMustache (Suc fuel) ''{{{x}}}'' = Done t2 \<and> isValid t2 \<and>
     BasicMustache (Suc fuel) ''{{&x}}'' = Done t3 \<and> isValid t3 \<and>
     render (Suc fuel) t1 (DObject [(''x'', DString s)]) = Done (escape s, t1) \<and>
     render (Suc fuel) t2 (DObject [(''x'', DString s)]) = Done (s, t2) \<and>
     render (Suc fuel) t3 (DObject [(''x'', DString s)]) = Done (s, t3) \<and>
     escape s =
       concat (map (\<lambda>ch.
         if ch = CHR ''&'' then ''&amp;''
         else if ch = CHR ''<'' then ''&lt;''
         else if ch = CHR ''>'' then ''&gt;''
         else if ch = CHR 0x22 then ''&quot;''
         else if ch = CHR 0x27 then ''&apos;''
         else [ch]) s)"
proof -
  have "escape s =
       concat (map (\<lambda>ch.
         if ch = CHR ''&'' then ''&amp;''
         else if ch = CHR ''<'' then ''&lt;''
         else if ch = CHR ''>'' then ''&gt;''
         else if ch = CHR 0x22 then ''&quot;''
         else if ch = CHR 0x27 then ''&apos;''
         else [ch]) s)"
    by (induction s) (simp_all add: escape_char_def)
  then show ?thesis
    by (simp add: parse_eval tree_eval string_eval delimiter_eval render_eval parse_loop_at_end)
qed

section \<open>Looking a name up in the context\<close>

lemma foldl_get_None:
  "foldl (\<lambda>v n. case v of None \<Rightarrow> None | Some d \<Rightarrow> Data_get d n) None segments = None"
  by (induction segments) simp_all

lemma get_names_resolve: "get_names var names = resolve_in_frame var names"
proof (induction names arbitrary: var)
  case Nil
  show ?case by (simp add: resolve_in_frame_def)
next
  case (Cons n names)
  show ?case
  proof (cases "Data_get var n")
    case None
    then show ?thesis by (simp add: resolve_in_frame_def foldl_get_None)
  next
    case (Some var')
    with Cons.IH [of var'] show ?thesis by (simp add: resolve_in_frame_def)
  qed
qed

lemma get_items_first_resolved: "get_items items names = first_resolved items names"
proof (induction items)
  case Nil
  show ?case by (simp add: first_resolved_def)
next
  case (Cons item items)
  then show ?case
    by (cases "resolve_in_frame item names")
      (simp_all add: first_resolved_def resolves_def get_names_resolve)
qed

lemma split_from_segment:
  "delim \<notin> set seg \<Longrightarrow>
     split_from delim item (seg @ delim # rest) = (item @ seg) # split_from delim [] rest"
  by (induction seg arbitrary: item) auto

lemma split_from_last:
  "delim \<notin> set seg \<Longrightarrow>
     split_from delim item seg = (if item @ seg = [] then [] else [item @ seg])"
  by (induction seg arbitrary: item) auto

text \<open>
  Claim C4. The lookup of a name other than \<^verbatim>\<open>.\<close> goes through the frames from the innermost
  outward; in each frame it starts again at the first segment and walks the segments from
  left to right with \<^verbatim>\<open>Data.get\<close>; it returns the value from the first frame in which every
  segment resolves, and is absent when no frame resolves them all. The segments are what
  \<^verbatim>\<open>split\<close> gives for the name (one empty segment when it gives none): the parts of the name
  between its dots, in order, without a last part that is empty. The name \<^verbatim>\<open>.\<close> returns
  the innermost frame. With the data \<^verbatim>\<open>{a:{b:{c:"ok"}}}\<close> the template \<^verbatim>\<open>{{a.b.c}}\<close> renders
  \<^verbatim>\<open>ok\<close>, and with \<^verbatim>\<open>{a:"x"}\<close> the template \<^verbatim>\<open>{{a.b}}\<close> renders nothing.
\<close>

theorem dotted_lookup:
  "(n \<noteq> ''.'' \<longrightarrow>
      Context_get items n =
        Inr (first_resolved items
               (if Context_split n (CHR ''.'') = [] then [[]] else Context_split n (CHR ''.'')))) \<and>
   (items \<noteq> [] \<longrightarrow> Context_get items ''.'' = Inr (Some (hd items))) \<and>
   Context_split ''a.b.c'' (CHR ''.'') = [''a'', ''b'', ''c''] \<and>
   (CHR ''.'' \<notin> set seg \<longrightarrow>
      Context_split (seg @ ''.'' @ rest) (CHR ''.'') = seg # Context_split rest (CHR ''.'')) \<and>
   (CHR ''.'' \<notin> set seg \<and> seg \<noteq> [] \<longrightarrow> Context_split seg (CHR ''.'') = [seg]) \<and>
   Context_split [] (CHR ''.'') = [] \<and>
   (\<exists>tmpl. BasicMustache (Suc fuel) ''{{a.b.c}}'' = Done tmpl \<and> isValid tmpl \<and>
      render (Suc fuel) tmpl
        (DObject [(''a'', DObject [(''b'', DObject [(''c'', DString ''ok'')])])])
        = Done (''ok'', tmpl)) \<and>
   (\<exists>tmpl. BasicMustache (Suc fuel) ''{{a.b}}'' = Done tmpl \<and> isValid tmpl \<and>
      render (Suc fuel) tmpl (DObject [(''a'', DString ''x'')]) = Done ([], tmpl))"
proof (intro conjI impI)
  assume "n \<noteq> ''.''"
  then have "\<not> (length n = 1 \<and> n ! 0 = CHR ''.'')"
    by (cases n) auto
  then have "Context_get items n =
      (let names = Context_split n (CHR ''.'');
           names' = (if names = [] then [[]] else names)
       in Inr (get_items items names'))"
    unfolding Context_get_def by (rule if_not_P)
  then show "Context_get items n =
        Inr (first_resolved items
               (if Context_split n (CHR ''.'') = [] then [[]] else Context_split n (CHR ''.'')))"
    by (simp add: Let_def get_items_first_resolved)
next
  assume "items \<noteq> []"
  then show "Context_get items ''.'' = Inr (Some (hd items))"
    by (cases items) (simp_all add: Context_get_def)
next
  show "Context_split ''a.b.c'' (CHR ''.'') = [''a'', ''b'', ''c'']"
    by (simp add: Context_split_def)
next
  assume "CHR ''.'' \<notin> set seg"
  then show "Context_split (seg @ ''.'' @ rest) (CHR ''.'') = seg # Context_split rest (CHR ''.'')"
    by (simp add: Context_split_def split_from_segment)
next
  assume "CHR ''.'' \<notin> set seg \<and> seg \<noteq> []"
  then show "Context_split seg (CHR ''.'') = [seg]"
    by (simp add: Context_split_def split_from_last)
next
  show "Context_split [] (CHR ''.'') = []"
    by (simp add: Context_split_def)
next
  show "\<exists>tmpl. BasicMustache (Suc fuel) ''{{a.b.c}}'' = Done tmpl \<and> isValid tmpl \<and>
      render (Suc fuel) tmpl
        (DObject [(''a'', DObject [(''b'', DObject [(''c'', DString ''ok'')])])])
        = Done (''ok'', tmpl)"
    by (simp add: parse_eval tree_eval string_eval delimiter_eval render_eval parse_loop_at_end)
next
  show "\<exists>tmpl. BasicMustache (Suc fuel) ''{{a.b}}'' = Done tmpl \<and> isValid tmpl \<and>
      render (Suc fuel) tmpl (DObject [(''a'', DString ''x'')]) = Done ([], tmpl)"
    by (simp add: parse_eval tree_eval string_eval delimiter_eval render_eval parse_loop_at_end)
qed

text \<open>
  Two frames: in the inner one \<^verbatim>\<open>a\<close> is a string, so \<^verbatim>\<open>a.b\<close> resolves in the outer one only.
  The name \<^verbatim>\<open>a.b.c.d\<close> has four segments.
\<close>

theorem dotted_lookup_witness:
  "''a.b'' \<noteq> ''.'' \<and>
   Context_get [DObject [(''a'', DString ''x'')], DObject [(''a'', DObject [(''b'', DString ''y'')])]] ''a.b''
     = Inr (Some (DString ''y'')) \<and>
   Context_get [DString ''s'', DObject []] ''.'' = Inr (Some (DString ''s'')) \<and>
   Context_split ''a.b.c.d'' (CHR ''.'') = [''a'', ''b'', ''c'', ''d'']"
proof -
  let ?items = "[DObject [(''a'', DString ''x'')], DObject [(''a'', DObject [(''b'', DString ''y'')])]]"
  have 1: "''a.b'' \<noteq> ''.''" by simp
  have 2: "[DString ''s'', DObject []] \<noteq> []" by simp
  have s: "Context_split ''a.b'' (CHR ''.'') = [''a'', ''b'']" by (simp add: Context_split_def)
  have f: "first_resolved ?items [''a'', ''b''] = Some (DString ''y'')"
    by (simp add: first_resolved_def resolves_def resolve_in_frame_def)
  from dotted_lookup [where n = "''a.b''" and items = ?items] 1
  have "Context_get ?items ''a.b'' = Inr (Some (DString ''y''))"
    by (simp add: s f)
  moreover from dotted_lookup [where n = "''.''" and items = "[DString ''s'', DObject []]"] 2
  have "Context_get [DString ''s'', DObject []] ''.'' = Inr (Some (DString ''s''))"
    by simp
  moreover have "Context_split ''a.b.c.d'' (CHR ''.'') = [''a'', ''b'', ''c'', ''d'']"
  proof -
    have a: "CHR ''.'' \<notin> set ''a''" and b: "CHR ''.'' \<notin> set ''b''" and c: "CHR ''.'' \<notin> set ''c''"
      and d: "CHR ''.'' \<notin> set ''d'' \<and> ''d'' \<noteq> []"
      by simp_all
    note t = dotted_lookup [THEN conjunct2, THEN conjunct2, THEN conjunct2]
    note seg = t [THEN conjunct1, THEN mp]
    note lst = t [THEN conjunct2, THEN conjunct1, THEN mp]
    have "Context_split (''a'' @ ''.'' @ ''b.c.d'') (CHR ''.'') =
        ''a'' # Context_split ''b.c.d'' (CHR ''.'')"
      by (rule seg [OF a])
    moreover have "Context_split (''b'' @ ''.'' @ ''c.d'') (CHR ''.'') =
        ''b'' # Context_split ''c.d'' (CHR ''.'')"
      by (rule seg [OF b])
    moreover have "Context_split (''c'' @ ''.'' @ ''d'') (CHR ''.'') =
        ''c'' # Context_split ''d'' (CHR ''.'')"
      by (rule seg [OF c])
    moreover have "Context_split ''d'' (CHR ''.'') = [''d'']"
      by (rule lst [OF d])
    ultimately show ?thesis by simp
  qed
  ultimately show ?thesis using 1 by simp
qed

section \<open>A lambda as the value of a section\<close>

lemma lambda_template:
  "BasicMustache (Suc (Suc (Suc pfuel))) ''{{#lam}} hi {{n}} {{/lam}}'' =
     Done \<lparr>errorMessage = [],
           rootComponent =
             Component [] new_Tag
               [Component []
                  \<lparr>tag_name = ''lam'', tag_type = SectionBegin,
                   sectionText = Some '' hi {{n}} '', tag_delimiterSet = None\<rparr>
                  [Component '' hi '' new_Tag [] 8,
                   Component []
                     \<lparr>tag_name = ''n'', tag_type = Variable, sectionText = None,
                      tag_delimiterSet = None\<rparr> [] 12,
                   Component '' '' new_Tag [] 17,
                   Component []
                     \<lparr>tag_name = ''lam'', tag_type = SectionEnd, sectionText = None,
                      tag_delimiterSet = None\<rparr> [] 18]
                  0]
               npos\<rparr>"
  by (simp add: parse_eval tree_eval string_eval delimiter_eval parse_loop_at_end)

lemma section_lambda_render:
  assumes "tag_type (comp_tag cmp) = SectionBegin"
    and "sectionText (comp_tag cmp) = Some txt"
    and "Context_get (ctx_items st) (tag_name (comp_tag cmp)) = Inr (Some (DLambda f))"
  shows "renderComponent (Suc fuel) cmp depth st = lambda_section fuel f txt cmp st"
  using assms
  by (auto simp: renderComponent_body_def isText_def renderLambda_def render_sub_def Let_def
      handler_def isValid_def lambda_section_def split: outcome.splits prod.splits)

lemma lambda_section_control:
  "lambda_section fuel f txt cmp st = Done (control, c, st') \<Longrightarrow> control = Stop \<or> control = Skip"
  by (auto simp: lambda_section_def split: outcome.splits prod.splits if_splits)

lemma render_text:
  "renderComponent (Suc k) (Component t new_Tag [] p) d st =
     Done (Continue, Component t new_Tag [] p, handler t st)"
  by (simp add: renderComponent_body_def isText_def new_Tag_def)

lemma render_section_end:
  "renderComponent (Suc k)
     (Component [] \<lparr>tag_name = n, tag_type = SectionEnd, sectionText = None,
        tag_delimiterSet = None\<rparr> [] p) d st =
   Done (Continue,
     Component [] \<lparr>tag_name = n, tag_type = SectionEnd, sectionText = None,
        tag_delimiterSet = None\<rparr> [] p, st)"
  by (simp add: renderComponent_body_def isText_def)

lemma nested_lambda_render:
  "render (Suc (Suc fuel)) nested_template
     (DObject [(''a'', DTrue), (''lam'', DLambda f), (''n'', DString v)]) =
   (case lambda_section fuel f '' hi {{n}} '' (get_at (rootComponent nested_template) [1, 1])
           \<lparr>written = ''xy'',
            ctx_items = [DTrue, DObject [(''a'', DTrue), (''lam'', DLambda f), (''n'', DString v)]],
            ctx_delims = reset, this_errorMessage = []\<rparr> of
      OutOfFuel \<Rightarrow> OutOfFuel
    | Fault e \<Rightarrow> Fault e
    | Done (control, c, st') \<Rightarrow>
        Done (written st', nested_template\<lparr>errorMessage := this_errorMessage st'\<rparr>))"
proof -
  let ?data = "DObject [(''a'', DTrue), (''lam'', DLambda f), (''n'', DString v)]"
  let ?lam = "Component []
                \<lparr>tag_name = ''lam'', tag_type = SectionBegin,
                 sectionText = Some '' hi {{n}} '', tag_delimiterSet = None\<rparr>
                [Component '' hi '' new_Tag [] 16,
                 Component []
                   \<lparr>tag_name = ''n'', tag_type = Variable, sectionText = None,
                    tag_delimiterSet = None\<rparr> [] 20,
                 Component '' '' new_Tag [] 25,
                 Component []
                   \<lparr>tag_name = ''lam'', tag_type = SectionEnd, sectionText = None,
                    tag_delimiterSet = None\<rparr> [] 26]
                8"
  let ?a = "Component []
             \<lparr>tag_name = ''a'', tag_type = SectionBegin,
              sectionText = Some ''y{{#lam}} hi {{n}} {{/lam}}'', tag_delimiterSet = None\<rparr>
             [Component ''y'' new_Tag [] 7, ?lam,
              Component []
                \<lparr>tag_name = ''a'', tag_type = SectionEnd, sectionText = None,
                 tag_delimiterSet = None\<rparr> [] 34]
             (Suc 0)"
  let ?st = "\<lambda>w items. \<lparr>written = w, ctx_items = items, ctx_delims = reset,
      this_errorMessage = []\<rparr>"
  have g: "get_at (rootComponent nested_template) [1, 1] = ?lam"
    by (simp add: nested_template_def)
  have lk: "Context_get (ctx_items (?st ''xy'' [DTrue, ?data])) (tag_name (comp_tag ?lam)) =
      Inr (Some (DLambda f))"
    by (simp add: Context_get_def Context_split_def)
  have r: "renderComponent (Suc fuel) ?lam 0 (?st ''xy'' [DTrue, ?data]) =
      lambda_section fuel f '' hi {{n}} '' ?lam (?st ''xy'' [DTrue, ?data])"
    by (rule section_lambda_render [OF _ _ lk]) simp_all
  have inner: "walkChildren (Suc fuel) (renderComponent (Suc fuel)) ?a (?st ''x'' [DTrue, ?data]) =
      (case lambda_section fuel f '' hi {{n}} '' ?lam (?st ''xy'' [DTrue, ?data]) of
         OutOfFuel \<Rightarrow> OutOfFuel
       | Fault e \<Rightarrow> Fault e
       | Done (control, c, st') \<Rightarrow> Done st')"
    using lambda_section_control [of fuel f "'' hi {{n}} ''" ?lam "?st ''xy'' [DTrue, ?data]"]
    by (fastforce simp: walkChildren_def render_text render_section_end handler_def r
        simp del: renderComponent.simps split: outcome.splits prod.splits)
  have outer: "renderComponent (Suc (Suc fuel)) ?a 0 (?st ''x'' [?data]) =
      (case walkChildren (Suc fuel) (renderComponent (Suc fuel)) ?a (?st ''x'' [DTrue, ?data]) of
         OutOfFuel \<Rightarrow> OutOfFuel
       | Fault e \<Rightarrow> Fault e
       | Done st' \<Rightarrow> Done (Skip, ?a, pop st'))"
    by (simp add: renderComponent.simps(2) [of "Suc fuel"] renderComponent_body_def isText_def
        Context_get_def Context_split_def renderSection_def push_def
        del: renderComponent.simps split: outcome.splits)
  show ?thesis
    unfolding g
    by (simp add: render_def nested_template_def walkChildren_def [of "Suc (Suc fuel)"]
        render_text handler_def outer inner pop_def
        del: renderComponent.simps split: outcome.splits prod.splits)
qed

lemma nested_lambda_template:
  "BasicMustache (Suc (Suc (Suc (Suc (Suc pfuel))))) ''x{{#a}}y{{#lam}} hi {{n}} {{/lam}}{{/a}}'' =
     Done nested_template"
  by (simp add: nested_template_def parse_eval tree_eval string_eval delimiter_eval
      parse_loop_at_end)

text \<open>
  Claim C9. First part: when the name of a section resolves to a lambda \<open>f\<close>,
  \<^verbatim>\<open>renderComponent\<close> does what \<open>lambda_section\<close> says with the section text \<open>txt\<close> that the parser
  stored: it calls \<open>f\<close> on \<open>txt\<close>, parses the result with the delimiter set of the context,
  renders it under the context and writes the result unescaped.

  Second part, which text the parser stores, for every input and every delimiter set: in
  the tree of a template that is valid, each component that has a section text is a
  section, its last child is the section-end tag that closed it, and its text is the bytes
  of the input from where its first child starts up to where that section-end tag starts,
  as they are.

  Third part, where the first child of a section starts. \<open>sections_inv\<close> holds when the loop
  of \<^verbatim>\<open>parse\<close> is entered, and each run of the loop body keeps it: the pointers in
  \<^verbatim>\<open>sections\<close> lead to the open sections, each the child of the one before, and each entry
  of \<^verbatim>\<open>sectionStarts\<close> is where the first child of its section starts; the two are stacks, on
  which a run pushes or from which it pops one entry, or which it leaves as they are. A run on a
  section-begin tag pushes the pointer to the component of this very tag, which has no
  child yet, and pushes the position behind the closing delimiter of the tag, where the
  scan goes on. A run on a section-end tag that starts at \<open>ts\<close> stores the bytes from the
  position on top of \<^verbatim>\<open>sectionStarts\<close> up to \<open>ts\<close> in the component that the pointer on top of
  \<^verbatim>\<open>sections\<close> leads to: a section, whose first child starts at that position, and whose last
  child is now this tag.

  Fourth part: for every lambda \<open>f\<close>, rendering \<^verbatim>\<open>{{#lam}} hi {{n}} {{/lam}}\<close> is \<open>lambda_section\<close>
  on the text \<^verbatim>\<open> hi {{n}} \<close>, with both spaces and with the tag unrendered; and so is rendering
  \<^verbatim>\<open>x{{#a}}y{{#lam}} hi {{n}} {{/lam}}{{/a}}\<close>, where the section \<^verbatim>\<open>lam\<close> is the second child of
  another section, after \<^verbatim>\<open>xy\<close> has been written.
\<close>

theorem section_lambda:
  "(tag_type (comp_tag cmp) = SectionBegin \<and> sectionText (comp_tag cmp) = Some txt \<and>
    Context_get (ctx_items st) (tag_name (comp_tag cmp)) = Inr (Some (DLambda f)) \<longrightarrow>
      renderComponent (Suc fuel) cmp depth st = lambda_section fuel f txt cmp st) \<and>
   (parse tfuel tinput d = Done (tmpl, d') \<and> isValid tmpl \<longrightarrow>
      section_texts_ok tinput (rootComponent tmpl)) \<and>
   sections_inv input (new_ParseState d0) \<and>
   (sections_inv input ps \<and> parse_step input ps = Iterated ps2 \<longrightarrow>
      sections_inv input ps2 \<and>
      ((sections ps2 = sections ps \<and> sectionStarts ps2 = sectionStarts ps) \<or>
       (\<exists>q s. sections ps2 = sections ps @ [q] \<and> sectionStarts ps2 = sectionStarts ps @ [s]) \<or>
       (sections ps2 = butlast (sections ps) \<and> sectionStarts ps2 = butlast (sectionStarts ps)))) \<and>
   (sections_inv input ps \<and>
    str_find input (delim_begin (ctx_delimiterSet ps)) (inputPosition ps) = Some ts \<and>
    tcl = ts + length (delim_begin (ctx_delimiterSet ps)) \<and>
    tagIsUnescapedVar input ps ts tcl = Inr False \<and>
    str_find input (delim_end (ctx_delimiterSet ps)) tcl = Some te \<and>
    contents = trim (substr input tcl (te - tcl)) \<and> contents \<noteq> [] \<and>
    ps1 = (if ts \<noteq> inputPosition ps
           then add_child (text_Component (substr input (inputPosition ps) (ts - inputPosition ps))
                  (inputPosition ps)) ps
           else ps) \<longrightarrow>
      (hd contents = CHR ''#'' \<longrightarrow>
         (\<exists>ps'. parse_step input ps = Iterated ps' \<and>
            sections_inv input ps' \<and>
            inputPosition ps' = te + length (delim_end (ctx_delimiterSet ps)) \<and>
            sectionStarts ps' = sectionStarts ps @ [te + length (delim_end (ctx_delimiterSet ps))] \<and>
            sections ps' = sections ps @ [last (sections ps')] \<and>
            get_at (ps_rootComponent ps') (last (sections ps')) =
              Component []
                (new_Tag\<lparr>tag_type := SectionBegin, tag_name := trim (tl contents)\<rparr>) [] ts)) \<and>
      (hd contents = CHR ''/'' \<and> length (sections ps) \<noteq> 1 \<longrightarrow>
         (\<exists>ps'. parse_step input ps = Iterated ps' \<and>
            sections_inv input ps' \<and>
            sectionStarts ps' = butlast (sectionStarts ps) \<and>
            sections ps' = butlast (sections ps) \<and>
            ps_rootComponent ps' =
              update_at
                (set_sectionText
                   (substr input (last (sectionStarts ps)) (ts - last (sectionStarts ps))))
                (last (sections ps))
                (ps_rootComponent
                   (add_child
                      (Component []
                         (new_Tag\<lparr>tag_type := SectionEnd, tag_name := trim (tl contents)\<rparr>) [] ts)
                      ps1)) \<and>
            get_at (ps_rootComponent ps') (last (sections ps)) =
              set_sectionText
                (substr input (last (sectionStarts ps)) (ts - last (sectionStarts ps)))
                (push_back_child
                   (Component []
                      (new_Tag\<lparr>tag_type := SectionEnd, tag_name := trim (tl contents)\<rparr>) [] ts)
                   (get_at (ps_rootComponent ps1) (last (sections ps)))) \<and>
            isSectionBegin (comp_tag (get_at (ps_rootComponent ps') (last (sections ps)))) \<and>
            position (hd (children (get_at (ps_rootComponent ps') (last (sections ps))))) =
              last (sectionStarts ps)))) \<and>
   (\<exists>tmpl. BasicMustache (Suc (Suc (Suc pfuel))) ''{{#lam}} hi {{n}} {{/lam}}'' = Done tmpl \<and>
      isValid tmpl \<and>
      render (Suc fuel) tmpl (DObject [(''lam'', DLambda f), (''n'', DString v)]) =
        (case lambda_section fuel f '' hi {{n}} '' (hd (children (rootComponent tmpl)))
                \<lparr>written = [],
                 ctx_items = [DObject [(''lam'', DLambda f), (''n'', DString v)]],
                 ctx_delims = reset, this_errorMessage = []\<rparr> of
           OutOfFuel \<Rightarrow> OutOfFuel
         | Fault e \<Rightarrow> Fault e
         | Done (control, c, st') \<Rightarrow>
             Done (written st', tmpl\<lparr>errorMessage := this_errorMessage st'\<rparr>))) \<and>
   (\<exists>tmpl. BasicMustache (Suc (Suc (Suc (Suc (Suc pfuel)))))
              ''x{{#a}}y{{#lam}} hi {{n}} {{/lam}}{{/a}}'' = Done tmpl \<and>
      isValid tmpl \<and>
      tag_name (comp_tag (get_at (rootComponent tmpl) [1, 1])) = ''lam'' \<and>
      sectionText (comp_tag (get_at (rootComponent tmpl) [1, 1])) = Some '' hi {{n}} '' \<and>
      sectionText (comp_tag (get_at (rootComponent tmpl) [1])) =
        Some ''y{{#lam}} hi {{n}} {{/lam}}'' \<and>
      render (Suc (Suc fuel)) tmpl
          (DObject [(''a'', DTrue), (''lam'', DLambda f), (''n'', DString v)]) =
        (case lambda_section fuel f '' hi {{n}} '' (get_at (rootComponent tmpl) [1, 1])
                \<lparr>written = ''xy'',
                 ctx_items =
                   [DTrue, DObject [(''a'', DTrue), (''lam'', DLambda f), (''n'', DString v)]],
                 ctx_delims = reset, this_errorMessage = []\<rparr> of
           OutOfFuel \<Rightarrow> OutOfFuel
         | Fault e \<Rightarrow> Fault e
         | Done (control, c, st') \<Rightarrow>
             Done (written st', tmpl\<lparr>errorMessage := this_errorMessage st'\<rparr>)))"
proof (intro conjI)
  show "(tag_type (comp_tag cmp) = SectionBegin \<and> sectionText (comp_tag cmp) = Some txt \<and>
    Context_get (ctx_items st) (tag_name (comp_tag cmp)) = Inr (Some (DLambda f)) \<longrightarrow>
      renderComponent (Suc fuel) cmp depth st = lambda_section fuel f txt cmp st)"
    using section_lambda_render [of cmp "txt" st f fuel depth] by blast
next
  show "(parse tfuel tinput d = Done (tmpl, d') \<and> isValid tmpl \<longrightarrow>
      section_texts_ok tinput (rootComponent tmpl))"
    using parse_section_texts [of tfuel tinput d tmpl d'] by blast
next
  show "sections_inv input (new_ParseState d0)"
    by (rule new_ParseState_sections)
next
  show "(sections_inv input ps \<and> parse_step input ps = Iterated ps2 \<longrightarrow>
      sections_inv input ps2 \<and>
      ((sections ps2 = sections ps \<and> sectionStarts ps2 = sectionStarts ps) \<or>
       (\<exists>q s. sections ps2 = sections ps @ [q] \<and> sectionStarts ps2 = sectionStarts ps @ [s]) \<or>
       (sections ps2 = butlast (sections ps) \<and> sectionStarts ps2 = butlast (sectionStarts ps))))"
    using parse_step_sections [of input ps ps2] parse_step_stacks [of input ps ps2] by blast
next
  show "(sections_inv input ps \<and>
    str_find input (delim_begin (ctx_delimiterSet ps)) (inputPosition ps) = Some ts \<and>
    tcl = ts + length (delim_begin (ctx_delimiterSet ps)) \<and>
    tagIsUnescapedVar input ps ts tcl = Inr False \<and>
    str_find input (delim_end (ctx_delimiterSet ps)) tcl = Some te \<and>
    contents = trim (substr input tcl (te - tcl)) \<and> contents \<noteq> [] \<and>
    ps1 = (if ts \<noteq> inputPosition ps
           then add_child (text_Component (substr input (inputPosition ps) (ts - inputPosition ps))
                  (inputPosition ps)) ps
           else ps) \<longrightarrow>
      (hd contents = CHR ''#'' \<longrightarrow>
         (\<exists>ps'. parse_step input ps = Iterated ps' \<and>
            sections_inv input ps' \<and>
            inputPosition ps' = te + length (delim_end (ctx_delimiterSet ps)) \<and>
            sectionStarts ps' = sectionStarts ps @ [te + length (delim_end (ctx_delimiterSet ps))] \<and>
            sections ps' = sections ps @ [last (sections ps')] \<and>
            get_at (ps_rootComponent ps') (last (sections ps')) =
              Component []
                (new_Tag\<lparr>tag_type := SectionBegin, tag_name := trim (tl contents)\<rparr>) [] ts)) \<and>
      (hd contents = CHR ''/'' \<and> length (sections ps) \<noteq> 1 \<longrightarrow>
         (\<exists>ps'. parse_step input ps = Iterated ps' \<and>
            sections_inv input ps' \<and>
            sectionStarts ps' = butlast (sectionStarts ps) \<and>
            sections ps' = butlast (sections ps) \<and>
            ps_rootComponent ps' =
              update_at
                (set_sectionText
                   (substr input (last (sectionStarts ps)) (ts - last (sectionStarts ps))))
                (last (sections ps))
                (ps_rootComponent
                   (add_child
                      (Component []
                         (new_Tag\<lparr>tag_type := SectionEnd, tag_name := trim (tl contents)\<rparr>) [] ts)
                      ps1)) \<and>
            get_at (ps_rootComponent ps') (last (sections ps)) =
              set_sectionText
                (substr input (last (sectionStarts ps)) (ts - last (sectionStarts ps)))
                (push_back_child
                   (Component []
                      (new_Tag\<lparr>tag_type := SectionEnd, tag_name := trim (tl contents)\<rparr>) [] ts)
                   (get_at (ps_rootComponent ps1) (last (sections ps)))) \<and>
            isSectionBegin (comp_tag (get_at (ps_rootComponent ps') (last (sections ps)))) \<and>
            position (hd (children (get_at (ps_rootComponent ps') (last (sections ps))))) =
              last (sectionStarts ps))))"
    using section_begin_step [of input ps ts tcl te contents ps1]
      section_end_step [of input ps ts tcl te contents ps1]
    by blast
next
  let ?data = "DObject [(''lam'', DLambda f), (''n'', DString v)]"
  let ?sec = "Component []
                  \<lparr>tag_name = ''lam'', tag_type = SectionBegin,
                   sectionText = Some '' hi {{n}} '', tag_delimiterSet = None\<rparr>
                  [Component '' hi '' new_Tag [] 8,
                   Component []
                     \<lparr>tag_name = ''n'', tag_type = Variable, sectionText = None,
                      tag_delimiterSet = None\<rparr> [] 12,
                   Component '' '' new_Tag [] 17,
                   Component []
                     \<lparr>tag_name = ''lam'', tag_type = SectionEnd, sectionText = None,
                      tag_delimiterSet = None\<rparr> [] 18]
                  0"
  let ?st = "\<lparr>written = [], ctx_items = [?data], ctx_delims = reset, this_errorMessage = []\<rparr>"
  have g: "Context_get (ctx_items ?st) (tag_name (comp_tag ?sec)) = Inr (Some (DLambda f))"
    by (simp add: Context_get_def Context_split_def)
  have r: "renderComponent (Suc fuel) ?sec 0 ?st = lambda_section fuel f '' hi {{n}} '' ?sec ?st"
    using section_lambda_render [of ?sec "'' hi {{n}} ''" ?st f fuel 0] g by simp
  have c: "\<And>control c st'. lambda_section fuel f '' hi {{n}} '' ?sec ?st = Done (control, c, st')
      \<Longrightarrow> control = Stop \<or> control = Skip"
    by (auto simp: lambda_section_def split: outcome.splits prod.splits if_splits)
  show "\<exists>tmpl. BasicMustache (Suc (Suc (Suc pfuel))) ''{{#lam}} hi {{n}} {{/lam}}'' = Done tmpl \<and>
      isValid tmpl \<and>
      render (Suc fuel) tmpl ?data =
        (case lambda_section fuel f '' hi {{n}} '' (hd (children (rootComponent tmpl))) ?st of
           OutOfFuel \<Rightarrow> OutOfFuel
         | Fault e \<Rightarrow> Fault e
         | Done (control, c, st') \<Rightarrow>
             Done (written st', tmpl\<lparr>errorMessage := this_errorMessage st'\<rparr>))"
    unfolding lambda_template
    using c
    by (fastforce simp: isValid_def render_def walkChildren_def r simp del: renderComponent.simps
        split: outcome.splits prod.splits)
next
  show "(\<exists>tmpl. BasicMustache (Suc (Suc (Suc (Suc (Suc pfuel)))))
              ''x{{#a}}y{{#lam}} hi {{n}} {{/lam}}{{/a}}'' = Done tmpl \<and>
      isValid tmpl \<and>
      tag_name (comp_tag (get_at (rootComponent tmpl) [1, 1])) = ''lam'' \<and>
      sectionText (comp_tag (get_at (rootComponent tmpl) [1, 1])) = Some '' hi {{n}} '' \<and>
      sectionText (comp_tag (get_at (rootComponent tmpl) [1])) =
        Some ''y{{#lam}} hi {{n}} {{/lam}}'' \<and>
      render (Suc (Suc fuel)) tmpl
          (DObject [(''a'', DTrue), (''lam'', DLambda f), (''n'', DString v)]) =
        (case lambda_section fuel f '' hi {{n}} '' (get_at (rootComponent tmpl) [1, 1])
                \<lparr>written = ''xy'',
                 ctx_items =
                   [DTrue, DObject [(''a'', DTrue), (''lam'', DLambda f), (''n'', DString v)]],
                 ctx_delims = reset, this_errorMessage = []\<rparr> of
           OutOfFuel \<Rightarrow> OutOfFuel
         | Fault e \<Rightarrow> Fault e
         | Done (control, c, st') \<Rightarrow>
             Done (written st', tmpl\<lparr>errorMessage := this_errorMessage st'\<rparr>)))"
    unfolding nested_lambda_template
    by (intro exI [of _ nested_template] conjI refl nested_lambda_render)
      (simp_all add: nested_template_def isValid_def)
qed

text \<open>
  With the delimiters \<^verbatim>\<open><%\<close> and \<^verbatim>\<open>%>\<close> in force and the section text \<^verbatim>\<open> {{n}} <%n%>\<close>, what is
  written is \<^verbatim>\<open>< {{n}} z>\<close>: the lambda received the text unrendered, its result was parsed
  with the delimiters of the context (\<^verbatim>\<open>{{n}}\<close> stayed text), and the angle brackets were not
  escaped. The tree of \<^verbatim>\<open>x{{#a}}y{{#lam}} hi {{n}} {{/lam}}{{/a}}\<close> has its section texts in
  order. In \<^verbatim>\<open>{{#a}}y{{#lam}}A{{/lam}}{{/a}}\<close> the run of the loop body on \<^verbatim>\<open>{{#lam}}\<close> pushes 15 and
  the pointer to the second child of the section \<^verbatim>\<open>a\<close>, and the run on \<^verbatim>\<open>{{/lam}}\<close> stores the
  text \<^verbatim>\<open>A\<close> there.
\<close>

theorem section_lambda_witness:
  "renderComponent (Suc (Suc (Suc (Suc 0)))) lam_section 0 lam_state =
     Done (Skip, lam_section, lam_state\<lparr>written := ''pre< {{n}} z>''\<rparr>) \<and>
   parse (Suc (Suc (Suc (Suc (Suc 0))))) ''x{{#a}}y{{#lam}} hi {{n}} {{/lam}}{{/a}}'' reset =
     Done (nested_template, reset) \<and>
   isValid nested_template \<and>
   section_texts_ok ''x{{#a}}y{{#lam}} hi {{n}} {{/lam}}{{/a}}'' (rootComponent nested_template) \<and>
   sections_inv ''{{#a}}y{{#lam}}A{{/lam}}{{/a}}'' after_outer_begin \<and>
   parse_step ''{{#a}}y{{#lam}}A{{/lam}}{{/a}}'' after_outer_begin = Iterated after_inner_begin \<and>
   sections_inv ''{{#a}}y{{#lam}}A{{/lam}}{{/a}}'' after_inner_begin \<and>
   last (sections after_inner_begin) = [0, 1] \<and>
   get_at (ps_rootComponent after_inner_begin) [0, 1] =
     Component []
       \<lparr>tag_name = ''lam'', tag_type = SectionBegin, sectionText = None,
        tag_delimiterSet = None\<rparr> [] 7 \<and>
   (\<exists>ps'. parse_step ''{{#a}}y{{#lam}}A{{/lam}}{{/a}}'' after_inner_begin = Iterated ps' \<and>
      sections_inv ''{{#a}}y{{#lam}}A{{/lam}}{{/a}}'' ps' \<and>
      sections ps' = [[], [0]] \<and>
      sectionStarts ps' = [6] \<and>
      get_at (ps_rootComponent ps') [0, 1] =
        Component []
          \<lparr>tag_name = ''lam'', tag_type = SectionBegin, sectionText = Some ''A'',
           tag_delimiterSet = None\<rparr>
          [Component ''A'' new_Tag [] 15,
           Component []
             \<lparr>tag_name = ''lam'', tag_type = SectionEnd, sectionText = None,
              tag_delimiterSet = None\<rparr> [] 16]
          7)"
proof -
  let ?f = "\<lambda>t. ''<'' @ t @ ''>''"
  let ?nested = "''x{{#a}}y{{#lam}} hi {{n}} {{/lam}}{{/a}}''"
  let ?input = "''{{#a}}y{{#lam}}A{{/lam}}{{/a}}''"
  have h: "tag_type (comp_tag lam_section) = SectionBegin \<and>
      sectionText (comp_tag lam_section) = Some '' {{n}} <%n%>'' \<and>
      Context_get (ctx_items lam_state) (tag_name (comp_tag lam_section)) = Inr (Some (DLambda ?f))"
    by (simp add: lam_section_def lam_state_def Context_get_def Context_split_def)
  have p: "parse (Suc (Suc (Suc 0))) (?f '' {{n}} <%n%>'') (ctx_delims lam_state) =
      Done (\<lparr>errorMessage = [],
             rootComponent =
               Component [] new_Tag
                 [Component ''< {{n}} '' new_Tag [] 0,
                  Component []
                    \<lparr>tag_name = ''n'', tag_type = Variable, sectionText = None,
                     tag_delimiterSet = None\<rparr> [] 8,
                  Component ''>'' new_Tag [] 13]
                 npos\<rparr>,
            \<lparr>delim_begin = ''<%'', delim_end = ''%>''\<rparr>)"
    by (simp add: lam_state_def parse_eval tree_eval string_eval delimiter_eval parse_loop_at_end)
  from section_lambda [of lam_section "'' {{n}} <%n%>''" lam_state ?f "Suc (Suc (Suc 0))" 0,
      THEN conjunct1, THEN mp, OF h]
  have "renderComponent (Suc (Suc (Suc (Suc 0)))) lam_section 0 lam_state =
      lambda_section (Suc (Suc (Suc 0))) ?f '' {{n}} <%n%>'' lam_section lam_state" .
  then have w1: "renderComponent (Suc (Suc (Suc (Suc 0)))) lam_section 0 lam_state =
     Done (Skip, lam_section, lam_state\<lparr>written := ''pre< {{n}} z>''\<rparr>)"
    unfolding lambda_section_def p
    by (simp add: lam_state_def isValid_def walkChildren_def tree_eval render_eval)
  have np: "parse (Suc (Suc (Suc (Suc (Suc 0))))) ?nested reset = Done (nested_template, reset)"
    by (simp add: nested_template_def parse_eval tree_eval string_eval delimiter_eval
        parse_loop_at_end)
  have nv: "isValid nested_template" by (simp add: nested_template_def isValid_def)
  from np nv have h0: "parse (Suc (Suc (Suc (Suc (Suc 0))))) ?nested reset =
      Done (nested_template, reset) \<and> isValid nested_template" by (rule conjI)
  from section_lambda [where tfuel = "Suc (Suc (Suc (Suc (Suc 0))))" and tinput = ?nested
      and d = reset and tmpl = nested_template and d' = reset,
      THEN conjunct2, THEN conjunct1, THEN mp, OF h0]
  have w2: "section_texts_ok ?nested (rootComponent nested_template)" .
  have i1: "sections_inv ?input after_outer_begin"
    by (simp add: sections_inv_def after_outer_begin_def tree_eval)
  have s1: "parse_step ?input after_outer_begin = Iterated after_inner_begin"
    by (simp add: after_outer_begin_def after_inner_begin_def parse_eval tree_eval string_eval
        delimiter_eval)
  let ?ps = after_outer_begin
  let ?ps1 = "add_child (text_Component ''y'' 6) ?ps"
  have h1: "sections_inv ?input ?ps \<and>
    str_find ?input (delim_begin (ctx_delimiterSet ?ps)) (inputPosition ?ps) = Some 7 \<and>
    9 = 7 + length (delim_begin (ctx_delimiterSet ?ps)) \<and>
    tagIsUnescapedVar ?input ?ps 7 9 = Inr False \<and>
    str_find ?input (delim_end (ctx_delimiterSet ?ps)) 9 = Some 13 \<and>
    ''#lam'' = trim (substr ?input 9 (13 - 9)) \<and> ''#lam'' \<noteq> [] \<and>
    ?ps1 = (if 7 \<noteq> inputPosition ?ps
           then add_child (text_Component (substr ?input (inputPosition ?ps) (7 - inputPosition ?ps))
                  (inputPosition ?ps)) ?ps
           else ?ps)"
    by (intro conjI i1)
      (simp_all add: after_outer_begin_def tagIsUnescapedVar_def size_sub_def string_eval
        delimiter_eval)
  have e1: "hd ''#lam'' = CHR ''#''" by simp
  note b1 = section_lambda [where input = ?input and ps = ?ps and ts = 7 and tcl = 9 and te = 13
      and contents = "''#lam''" and ?ps1.0 = ?ps1,
      THEN conjunct2, THEN conjunct2, THEN conjunct2, THEN conjunct2, THEN conjunct1,
      THEN mp, OF h1, THEN conjunct1, THEN mp, OF e1]
  from b1 obtain pb where pb: "parse_step ?input ?ps = Iterated pb"
      "sections_inv ?input pb"
      "get_at (ps_rootComponent pb) (last (sections pb)) =
        Component [] (new_Tag\<lparr>tag_type := SectionBegin, tag_name := trim (tl ''#lam'')\<rparr>) [] 7"
    by (elim exE conjE)
  from pb(1) have "pb = after_inner_begin" unfolding s1 by simp
  with pb(2,3) have w3: "sections_inv ?input after_inner_begin \<and>
      get_at (ps_rootComponent after_inner_begin) (last (sections after_inner_begin)) =
        Component [] (new_Tag\<lparr>tag_type := SectionBegin, tag_name := trim (tl ''#lam'')\<rparr>) [] 7"
    by simp
  have l: "last (sections after_inner_begin) = [0, 1]"
    by (simp add: after_inner_begin_def)
  from w3 have w3': "get_at (ps_rootComponent after_inner_begin) [0, 1] =
     Component []
       \<lparr>tag_name = ''lam'', tag_type = SectionBegin, sectionText = None,
        tag_delimiterSet = None\<rparr> [] 7"
    unfolding l by (simp add: new_Tag_def string_eval)
  let ?pt = after_inner_begin
  let ?pt1 = "add_child (text_Component ''A'' 15) ?pt"
  from i1 s1 have h3: "sections_inv ?input ?ps \<and> parse_step ?input ?ps = Iterated after_inner_begin"
    by (rule conjI)
  note k = section_lambda [where input = ?input and ps = ?ps and ?ps2.0 = after_inner_begin,
      THEN conjunct2, THEN conjunct2, THEN conjunct2, THEN conjunct1, THEN mp, OF h3]
  from k have w3a: "sections_inv ?input after_inner_begin" by (rule conjunct1)
  have h2: "sections_inv ?input ?pt \<and>
    str_find ?input (delim_begin (ctx_delimiterSet ?pt)) (inputPosition ?pt) = Some 16 \<and>
    18 = 16 + length (delim_begin (ctx_delimiterSet ?pt)) \<and>
    tagIsUnescapedVar ?input ?pt 16 18 = Inr False \<and>
    str_find ?input (delim_end (ctx_delimiterSet ?pt)) 18 = Some 22 \<and>
    ''/lam'' = trim (substr ?input 18 (22 - 18)) \<and> ''/lam'' \<noteq> [] \<and>
    ?pt1 = (if 16 \<noteq> inputPosition ?pt
           then add_child (text_Component (substr ?input (inputPosition ?pt) (16 - inputPosition ?pt))
                  (inputPosition ?pt)) ?pt
           else ?pt)"
    by (intro conjI w3a)
      (simp_all add: after_inner_begin_def tagIsUnescapedVar_def size_sub_def string_eval
        delimiter_eval)
  have e2: "hd ''/lam'' = CHR ''/'' \<and> length (sections ?pt) \<noteq> 1"
    by (simp add: after_inner_begin_def)
  note b2 = section_lambda [where input = ?input and ps = ?pt and ts = 16 and tcl = 18 and te = 22
      and contents = "''/lam''" and ?ps1.0 = ?pt1,
      THEN conjunct2, THEN conjunct2, THEN conjunct2, THEN conjunct2, THEN conjunct1,
      THEN mp, OF h2, THEN conjunct2, THEN mp, OF e2]
  from b2 obtain ps' where ps': "parse_step ?input ?pt = Iterated ps'"
      "sections_inv ?input ps'"
      "sectionStarts ps' = butlast (sectionStarts ?pt)"
      "sections ps' = butlast (sections ?pt)"
      "get_at (ps_rootComponent ps') (last (sections ?pt)) =
        set_sectionText
          (substr ?input (last (sectionStarts ?pt)) (16 - last (sectionStarts ?pt)))
          (push_back_child
             (Component []
                (new_Tag\<lparr>tag_type := SectionEnd, tag_name := trim (tl ''/lam'')\<rparr>) [] 16)
             (get_at (ps_rootComponent ?pt1) (last (sections ?pt))))"
    by (elim exE conjE)
  have a: "sections ps' = [[], [0]]" using ps'(4) by (simp add: after_inner_begin_def)
  have b: "sectionStarts ps' = [6]" using ps'(3) by (simp add: after_inner_begin_def)
  have c: "get_at (ps_rootComponent ps') [0, 1] =
        Component []
          \<lparr>tag_name = ''lam'', tag_type = SectionBegin, sectionText = Some ''A'',
           tag_delimiterSet = None\<rparr>
          [Component ''A'' new_Tag [] 15,
           Component []
             \<lparr>tag_name = ''lam'', tag_type = SectionEnd, sectionText = None,
              tag_delimiterSet = None\<rparr> [] 16]
          7"
    using ps'(5) unfolding l
    by (simp add: after_inner_begin_def add_child_def tree_eval string_eval)
  from ps'(1,2) a b c have w4: "\<exists>ps'. parse_step ?input ?pt = Iterated ps' \<and>
      sections_inv ?input ps' \<and>
      sections ps' = [[], [0]] \<and>
      sectionStarts ps' = [6] \<and>
      get_at (ps_rootComponent ps') [0, 1] =
        Component []
          \<lparr>tag_name = ''lam'', tag_type = SectionBegin, sectionText = Some ''A'',
           tag_delimiterSet = None\<rparr>
          [Component ''A'' new_Tag [] 15,
           Component []
             \<lparr>tag_name = ''lam'', tag_type = SectionEnd, sectionText = None,
              tag_delimiterSet = None\<rparr> [] 16]
          7"
    by blast
  show ?thesis
    by (intro conjI) (rule w1 np nv w2 i1 s1 w3a l w3' w4)+
qed

section \<open>Inverted sections\<close>

lemma get_names_not_object:
  "isFalse v \<or> isEmptyList v \<Longrightarrow> names \<noteq> [] \<Longrightarrow> get_names v names = None"
  by (cases v; cases names) auto

lemma Data_get_not_object: "isFalse v \<or> isEmptyList v \<Longrightarrow> Data_get v n = None"
  by (cases v) auto

lemma Context_get_names:
  assumes "n \<noteq> ''.''"
  shows "Context_get items n =
     Inr (get_items items
            (if Context_split n (CHR ''.'') = [] then [[]] else Context_split n (CHR ''.'')))"
proof -
  from assms have "\<not> (length n = 1 \<and> n ! 0 = CHR ''.'')"
    by (cases n) auto
  then have "Context_get items n =
      (let names = Context_split n (CHR ''.'');
           names' = (if names = [] then [[]] else names)
       in Inr (get_items items names'))"
    unfolding Context_get_def by (rule if_not_P)
  then show ?thesis by (simp add: Let_def)
qed

lemma inverted_section_render:
  assumes "tag_type (comp_tag cmp) = SectionBeginInverted"
    and "Context_get (ctx_items st) (tag_name (comp_tag cmp)) = Inr var"
  shows "renderComponent (Suc fuel) cmp depth st =
       (case var of
          None \<Rightarrow>
            (case walkChildren fuel (renderComponent fuel) cmp st of
               OutOfFuel \<Rightarrow> OutOfFuel
             | Fault e \<Rightarrow> Fault e
             | Done st' \<Rightarrow> Done (Skip, cmp, st'))
        | Some v \<Rightarrow>
            if isFalse v \<or> isEmptyList v then
              (case walkChildren fuel (renderComponent fuel) cmp (push v st) of
                 OutOfFuel \<Rightarrow> OutOfFuel
               | Fault e \<Rightarrow> Fault e
               | Done st' \<Rightarrow> Done (Skip, cmp, pop st'))
            else Done (Skip, cmp, st))"
proof (cases var)
  case None
  with assms show ?thesis
    by (simp add: renderComponent_body_def isText_def renderSection_def Let_def)
next
  case (Some v)
  have "isFalse v \<or> isEmptyList v \<Longrightarrow> \<not> isNonEmptyList v"
    by (cases v) auto
  with Some assms show ?thesis
    by (auto simp: renderComponent_body_def isText_def renderSection_def Let_def
        split: outcome.splits)
qed

lemma pop_push: "pop (push d st) = st"
  by (simp add: push_def pop_def)

lemma implicit_iterator_writes_nothing:
  assumes "isFalse w \<or> isEmptyList w"
    and "tag_type (comp_tag v) = Variable \<or> tag_type (comp_tag v) = UnescapedVariable"
    and "tag_name (comp_tag v) = ''.''"
  shows "renderComponent (Suc fuel) v depth (push w st) = Done (Continue, v, push w st)"
proof -
  have g: "Context_get (ctx_items (push w st)) ''.'' = Inr (Some w)"
    by (simp add: Context_get_def push_def)
  have r: "renderVariable fuel (renderComponent fuel) w e (push w st) = Done (True, push w st)" for e
    using assms(1) by (cases w) (simp_all add: renderVariable_def)
  from assms(2) have "\<not> isText v" by (auto simp: isText_def)
  with assms(2,3) show ?thesis
    by (auto simp: renderComponent_body_def Let_def g r)
qed

lemma inverted_template:
  "BasicMustache (Suc (Suc (Suc pfuel))) ''{{^a}}{{.}}{{/a}}'' =
     Done \<lparr>errorMessage = [], rootComponent = Component [] new_Tag [inverted_a] npos\<rparr>"
  by (simp add: inverted_a_def parse_eval tree_eval string_eval delimiter_eval parse_loop_at_end)

lemma inverted_render:
  assumes "isFalse w \<or> isEmptyList w"
  shows "render (Suc (Suc (Suc fuel)))
      \<lparr>errorMessage = [], rootComponent = Component [] new_Tag [inverted_a] npos\<rparr>
      (DObject [(''a'', w)]) =
    Done ([], \<lparr>errorMessage = [], rootComponent = Component [] new_Tag [inverted_a] npos\<rparr>)"
proof -
  have nl: "\<not> isNonEmptyList w" using assms by (cases w) auto
  have r: "renderVariable fuel' rc w e st = Done (True, st)" for fuel' rc e st
    using assms by (cases w) (simp_all add: renderVariable_def)
  show ?thesis
    using assms nl
    by (simp add: render_def walkChildren_def inverted_a_def renderComponent_body_def
        renderSection_def isText_def Context_get_def Context_split_def push_def pop_def r Let_def)
qed

text \<open>
  Claim C1, as amended. The body of an inverted section is rendered exactly when its name
  is absent, or resolves to False, or resolves to an empty list, and then it is walked
  once. When the name is absent no frame is pushed. When the name resolves to False or to
  an empty list, that value is pushed as the innermost frame for the walk of the body, and
  popped after it: inside the body the name \<^verbatim>\<open>.\<close> resolves to that value, while the lookup of
  every other name, and of every partial, gives what it gives outside the section. Under
  such a frame a variable tag with the name \<^verbatim>\<open>.\<close>, escaped or not, writes nothing and leaves
  the state as it is. So the template \<^verbatim>\<open>{{^a}}{{.}}{{/a}}\<close> renders the empty string whenever
  \<^verbatim>\<open>a\<close> is False or an empty list.
\<close>

theorem inverted_section:
  "(tag_type (comp_tag cmp) = SectionBeginInverted \<and>
    Context_get (ctx_items st) (tag_name (comp_tag cmp)) = Inr var \<longrightarrow>
      renderComponent (Suc fuel) cmp depth st =
       (case var of
          None \<Rightarrow>
            (case walkChildren fuel (renderComponent fuel) cmp st of
               OutOfFuel \<Rightarrow> OutOfFuel
             | Fault e \<Rightarrow> Fault e
             | Done st' \<Rightarrow> Done (Skip, cmp, st'))
        | Some v \<Rightarrow>
            if isFalse v \<or> isEmptyList v then
              (case walkChildren fuel (renderComponent fuel) cmp (push v st) of
                 OutOfFuel \<Rightarrow> OutOfFuel
               | Fault e \<Rightarrow> Fault e
               | Done st' \<Rightarrow> Done (Skip, cmp, pop st'))
            else Done (Skip, cmp, st))) \<and>
   (isFalse w \<or> isEmptyList w \<longrightarrow>
      Context_get (w # items) ''.'' = Inr (Some w) \<and>
      (n \<noteq> ''.'' \<longrightarrow> Context_get (w # items) n = Context_get items n) \<and>
      get_partial (w # items) n = get_partial items n) \<and>
   ((isFalse w \<or> isEmptyList w) \<and>
    (tag_type (comp_tag v) = Variable \<or> tag_type (comp_tag v) = UnescapedVariable) \<and>
    tag_name (comp_tag v) = ''.'' \<longrightarrow>
      renderComponent (Suc vfuel) v vdepth (push w vst) = Done (Continue, v, push w vst)) \<and>
   (isFalse w \<or> isEmptyList w \<longrightarrow>
      (\<exists>tmpl. BasicMustache (Suc (Suc (Suc pfuel))) ''{{^a}}{{.}}{{/a}}'' = Done tmpl \<and>
         isValid tmpl \<and>
         render (Suc (Suc (Suc rfuel))) tmpl (DObject [(''a'', w)]) = Done ([], tmpl)))"
proof (intro conjI impI)
  assume "tag_type (comp_tag cmp) = SectionBeginInverted \<and>
    Context_get (ctx_items st) (tag_name (comp_tag cmp)) = Inr var"
  then show "renderComponent (Suc fuel) cmp depth st =
       (case var of
          None \<Rightarrow>
            (case walkChildren fuel (renderComponent fuel) cmp st of
               OutOfFuel \<Rightarrow> OutOfFuel
             | Fault e \<Rightarrow> Fault e
             | Done st' \<Rightarrow> Done (Skip, cmp, st'))
        | Some v \<Rightarrow>
            if isFalse v \<or> isEmptyList v then
              (case walkChildren fuel (renderComponent fuel) cmp (push v st) of
                 OutOfFuel \<Rightarrow> OutOfFuel
               | Fault e \<Rightarrow> Fault e
               | Done st' \<Rightarrow> Done (Skip, cmp, pop st'))
            else Done (Skip, cmp, st))"
    by (intro inverted_section_render) simp_all
next
  show "Context_get (w # items) ''.'' = Inr (Some w)"
    by (simp add: Context_get_def)
next
  assume w: "isFalse w \<or> isEmptyList w" and n: "n \<noteq> ''.''"
  let ?names = "if Context_split n (CHR ''.'') = [] then [[]] else Context_split n (CHR ''.'')"
  have "?names \<noteq> []" by simp
  then have "get_names w ?names = None" by (rule get_names_not_object [OF w])
  then have "get_items (w # items) ?names = get_items items ?names" by simp
  then show "Context_get (w # items) n = Context_get items n"
    by (simp only: Context_get_names [OF n])
next
  assume "isFalse w \<or> isEmptyList w"
  then show "get_partial (w # items) n = get_partial items n"
    by (simp add: Data_get_not_object)
next
  assume "(isFalse w \<or> isEmptyList w) \<and>
    (tag_type (comp_tag v) = Variable \<or> tag_type (comp_tag v) = UnescapedVariable) \<and>
    tag_name (comp_tag v) = ''.''"
  then show "renderComponent (Suc vfuel) v vdepth (push w vst) = Done (Continue, v, push w vst)"
    by (intro implicit_iterator_writes_nothing) simp_all
next
  assume w: "isFalse w \<or> isEmptyList w"
  show "\<exists>tmpl. BasicMustache (Suc (Suc (Suc pfuel))) ''{{^a}}{{.}}{{/a}}'' = Done tmpl \<and>
         isValid tmpl \<and>
         render (Suc (Suc (Suc rfuel))) tmpl (DObject [(''a'', w)]) = Done ([], tmpl)"
    unfolding inverted_template using inverted_render [OF w] by (simp add: isValid_def)
qed

text \<open>
  The inverted section \<^verbatim>\<open>{{^a}}{{.}}{{/a}}\<close> under an innermost frame that is the string \<^verbatim>\<open>s\<close>:
  when \<^verbatim>\<open>a\<close> is False, and when it is the empty list, the body writes nothing, and when \<^verbatim>\<open>a\<close>
  is absent it writes \<^verbatim>\<open>s\<close>. The tag \<^verbatim>\<open>{{.}}\<close> under the empty list as the innermost frame
  writes nothing, and the whole template renders the empty string when \<^verbatim>\<open>a\<close> is the empty
  list.
\<close>

theorem inverted_section_witness:
  "renderComponent (Suc (Suc (Suc 0))) inverted_a 0
     \<lparr>written = [], ctx_items = [DString ''s'', DObject [(''a'', DFalse)]], ctx_delims = reset,
      this_errorMessage = []\<rparr>
   = Done (Skip, inverted_a,
       \<lparr>written = [], ctx_items = [DString ''s'', DObject [(''a'', DFalse)]], ctx_delims = reset,
        this_errorMessage = []\<rparr>) \<and>
   renderComponent (Suc (Suc (Suc 0))) inverted_a 0
     \<lparr>written = [], ctx_items = [DString ''s'', DObject [(''a'', DList [])]], ctx_delims = reset,
      this_errorMessage = []\<rparr>
   = Done (Skip, inverted_a,
       \<lparr>written = [], ctx_items = [DString ''s'', DObject [(''a'', DList [])]], ctx_delims = reset,
        this_errorMessage = []\<rparr>) \<and>
   renderComponent (Suc (Suc (Suc 0))) inverted_a 0
     \<lparr>written = [], ctx_items = [DString ''s'', DObject []], ctx_delims = reset,
      this_errorMessage = []\<rparr>
   = Done (Skip, inverted_a,
       \<lparr>written = ''s'', ctx_items = [DString ''s'', DObject []], ctx_delims = reset,
        this_errorMessage = []\<rparr>) \<and>
   renderComponent (Suc 0)
     (Component []
        \<lparr>tag_name = ''.'', tag_type = Variable, sectionText = None, tag_delimiterSet = None\<rparr>
        [] 6) 1
     \<lparr>written = ''x'', ctx_items = [DList [], DString ''s''], ctx_delims = reset,
      this_errorMessage = []\<rparr>
   = Done (Continue,
       Component []
        \<lparr>tag_name = ''.'', tag_type = Variable, sectionText = None, tag_delimiterSet = None\<rparr>
        [] 6,
       \<lparr>written = ''x'', ctx_items = [DList [], DString ''s''], ctx_delims = reset,
        this_errorMessage = []\<rparr>) \<and>
   render (Suc (Suc (Suc 0)))
     \<lparr>errorMessage = [], rootComponent = Component [] new_Tag [inverted_a] npos\<rparr>
     (DObject [(''a'', DList [])])
   = Done ([], \<lparr>errorMessage = [], rootComponent = Component [] new_Tag [inverted_a] npos\<rparr>)"
proof -
  let ?st = "\<lambda>d. \<lparr>written = [], ctx_items = [DString ''s'', DObject d], ctx_delims = reset,
      this_errorMessage = []\<rparr>"
  let ?dot = "Component []
        \<lparr>tag_name = ''.'', tag_type = Variable, sectionText = None, tag_delimiterSet = None\<rparr>
        [] 6"
  let ?outer = "\<lparr>written = ''x'', ctx_items = [DString ''s''], ctx_delims = reset,
      this_errorMessage = []\<rparr>"
  have 1: "tag_type (comp_tag inverted_a) = SectionBeginInverted \<and>
      Context_get (ctx_items (?st [(''a'', DFalse)])) (tag_name (comp_tag inverted_a))
        = Inr (Some DFalse)"
    by (simp add: inverted_a_def Context_get_def Context_split_def)
  have 2: "tag_type (comp_tag inverted_a) = SectionBeginInverted \<and>
      Context_get (ctx_items (?st [])) (tag_name (comp_tag inverted_a)) = Inr None"
    by (simp add: inverted_a_def Context_get_def Context_split_def)
  have 3: "tag_type (comp_tag inverted_a) = SectionBeginInverted \<and>
      Context_get (ctx_items (?st [(''a'', DList [])])) (tag_name (comp_tag inverted_a))
        = Inr (Some (DList []))"
    by (simp add: inverted_a_def Context_get_def Context_split_def)
  have w1: "walkChildren (Suc (Suc 0)) (renderComponent (Suc (Suc 0))) inverted_a
        (push DFalse (?st [(''a'', DFalse)])) = Done (push DFalse (?st [(''a'', DFalse)]))"
    by (simp add: inverted_a_def walkChildren_def tree_eval render_eval)
  have w2: "walkChildren (Suc (Suc 0)) (renderComponent (Suc (Suc 0))) inverted_a (?st [])
      = Done ((?st [])\<lparr>written := ''s''\<rparr>)"
    by (simp add: inverted_a_def walkChildren_def tree_eval render_eval)
  have w3: "walkChildren (Suc (Suc 0)) (renderComponent (Suc (Suc 0))) inverted_a
        (push (DList []) (?st [(''a'', DList [])])) = Done (push (DList []) (?st [(''a'', DList [])]))"
    by (simp add: inverted_a_def walkChildren_def tree_eval render_eval)
  from inverted_section [of inverted_a "?st [(''a'', DFalse)]" "Some DFalse" "Suc (Suc 0)" 0] 1
  have a: "renderComponent (Suc (Suc (Suc 0))) inverted_a 0 (?st [(''a'', DFalse)]) =
      Done (Skip, inverted_a, ?st [(''a'', DFalse)])"
    by (simp add: w1 pop_push del: renderComponent.simps)
  from inverted_section [of inverted_a "?st []" None "Suc (Suc 0)" 0] 2
  have b: "renderComponent (Suc (Suc (Suc 0))) inverted_a 0 (?st []) =
      Done (Skip, inverted_a, (?st [])\<lparr>written := ''s''\<rparr>)"
    by (simp add: w2 del: renderComponent.simps)
  from inverted_section [of inverted_a "?st [(''a'', DList [])]" "Some (DList [])" "Suc (Suc 0)" 0] 3
  have c: "renderComponent (Suc (Suc (Suc 0))) inverted_a 0 (?st [(''a'', DList [])]) =
      Done (Skip, inverted_a, ?st [(''a'', DList [])])"
    by (simp add: w3 pop_push del: renderComponent.simps)
  have h: "(isFalse (DList []) \<or> isEmptyList (DList [])) \<and>
      (tag_type (comp_tag ?dot) = Variable \<or> tag_type (comp_tag ?dot) = UnescapedVariable) \<and>
      tag_name (comp_tag ?dot) = ''.''"
    by simp
  from inverted_section [where w = "DList []" and v = ?dot and vfuel = 0 and vdepth = 1
      and vst = ?outer] h
  have "renderComponent (Suc 0) ?dot 1 (push (DList []) ?outer) =
      Done (Continue, ?dot, push (DList []) ?outer)"
    by blast
  then have d: "renderComponent (Suc 0) ?dot 1
      \<lparr>written = ''x'', ctx_items = [DList [], DString ''s''], ctx_delims = reset,
       this_errorMessage = []\<rparr> =
      Done (Continue, ?dot,
        \<lparr>written = ''x'', ctx_items = [DList [], DString ''s''], ctx_delims = reset,
         this_errorMessage = []\<rparr>)"
    by (simp add: push_def del: renderComponent.simps)
  have "isFalse (DList []) \<or> isEmptyList (DList [])" by simp
  with inverted_section [where w = "DList []" and pfuel = 0 and rfuel = 0]
  have "\<exists>tmpl. BasicMustache (Suc (Suc (Suc 0))) ''{{^a}}{{.}}{{/a}}'' = Done tmpl \<and>
      isValid tmpl \<and>
      render (Suc (Suc (Suc 0))) tmpl (DObject [(''a'', DList [])]) = Done ([], tmpl)"
    by blast
  then have e: "render (Suc (Suc (Suc 0)))
      \<lparr>errorMessage = [], rootComponent = Component [] new_Tag [inverted_a] npos\<rparr>
      (DObject [(''a'', DList [])])
    = Done ([], \<lparr>errorMessage = [], rootComponent = Component [] new_Tag [inverted_a] npos\<rparr>)"
    unfolding inverted_template by simp
  from a c b d e show ?thesis by (simp del: renderComponent.simps)
qed

text \<open>
  Against claim C1 as it was stated: with \<^verbatim>\<open>a\<close> False, the inverted section writes nothing,
  while the walk of its body under the context stack as it is outside the section writes
  \<^verbatim>\<open>s\<close>. So the body did not see the same context stack: a frame was pushed.
\<close>

theorem inverted_section_pushes_frame:
  "renderComponent (Suc (Suc (Suc 0))) inverted_a 0
     \<lparr>written = [], ctx_items = [DString ''s'', DObject [(''a'', DFalse)]], ctx_delims = reset,
      this_errorMessage = []\<rparr>
   = Done (Skip, inverted_a,
       \<lparr>written = [], ctx_items = [DString ''s'', DObject [(''a'', DFalse)]], ctx_delims = reset,
        this_errorMessage = []\<rparr>) \<and>
   walkChildren (Suc (Suc 0)) (renderComponent (Suc (Suc 0))) inverted_a
     \<lparr>written = [], ctx_items = [DString ''s'', DObject [(''a'', DFalse)]], ctx_delims = reset,
      this_errorMessage = []\<rparr>
   = Done
       \<lparr>written = ''s'', ctx_items = [DString ''s'', DObject [(''a'', DFalse)]], ctx_delims = reset,
        this_errorMessage = []\<rparr>"
  by (simp add: inverted_a_def walkChildren_def tree_eval render_eval)

section \<open>An error in a partial inside a section\<close>

text \<open>
  Claim C2 fails on the code. The partial \<^verbatim>\<open>p\<close> produces \<^verbatim>\<open>{{unclosed\<close>, which does not parse. In
  \<^verbatim>\<open>{{#s}}{{>p}}{{/s}}after\<close>, where the partial is in the body of a section, the render takes
  over the error message of the partial and still writes \<^verbatim>\<open>after\<close>: \<^verbatim>\<open>renderSection\<close> returns
  nothing, so the \<^verbatim>\<open>Stop\<close> ends the walk of the body only. In \<^verbatim>\<open>{{>p}}after\<close>, where the partial
  is at the top level, the render halts and writes nothing.
\<close>

theorem error_in_section_does_not_halt:
  "(\<exists>tmpl. BasicMustache (Suc (Suc (Suc (Suc pfuel)))) ''{{#s}}{{>p}}{{/s}}after'' = Done tmpl \<and>
      isValid tmpl \<and>
      render (Suc (Suc (Suc fuel))) tmpl
        (DObject [(''s'', DTrue), (''p'', DPartial (\<lambda>u. ''{{unclosed''))])
      = Done (''after'', tmpl\<lparr>errorMessage := ''Unclosed tag at 0''\<rparr>)) \<and>
   (\<exists>tmpl. BasicMustache (Suc (Suc pfuel)) ''{{>p}}after'' = Done tmpl \<and>
      isValid tmpl \<and>
      render (Suc (Suc fuel)) tmpl
        (DObject [(''s'', DTrue), (''p'', DPartial (\<lambda>u. ''{{unclosed''))])
      = Done ([], tmpl\<lparr>errorMessage := ''Unclosed tag at 0''\<rparr>))"
proof (intro conjI)
  show "\<exists>tmpl. BasicMustache (Suc (Suc (Suc (Suc pfuel)))) ''{{#s}}{{>p}}{{/s}}after'' = Done tmpl \<and>
      isValid tmpl \<and>
      render (Suc (Suc (Suc fuel))) tmpl
        (DObject [(''s'', DTrue), (''p'', DPartial (\<lambda>u. ''{{unclosed''))])
      = Done (''after'', tmpl\<lparr>errorMessage := ''Unclosed tag at 0''\<rparr>)"
    by (simp add: parse_eval tree_eval string_eval delimiter_eval parse_loop_at_end render_eval)
  show "\<exists>tmpl. BasicMustache (Suc (Suc pfuel)) ''{{>p}}after'' = Done tmpl \<and>
      isValid tmpl \<and>
      render (Suc (Suc fuel)) tmpl
        (DObject [(''s'', DTrue), (''p'', DPartial (\<lambda>u. ''{{unclosed''))])
      = Done ([], tmpl\<lparr>errorMessage := ''Unclosed tag at 0''\<rparr>)"
    by (simp add: parse_eval tree_eval string_eval delimiter_eval parse_loop_at_end render_eval)
qed

end
